theory Spec2Isabelle
  imports Complex_Main "HOL-Library.AList"
begin

section \<open>Differentially private set union (dpsu.py)\<close>

text \<open>
  A shallow embedding of \<^verbatim>\<open>sdk/opendp/whitenoise/sql/dpsu.py\<close>.

  Conventions of the model:
  \<^item> Python floats are idealised as \<^typ>\<open>real\<close>: rounding, infinities and NaN are not
    modelled. Python ints that only count (\<^verbatim>\<open>k\<close>, \<^verbatim>\<open>max_contrib\<close>) are \<^typ>\<open>int\<close>.
  \<^item> Every exception the code of the file can raise is a value \<open>Inl e\<close> of the result type.
  \<^item> A Python dict is an association list in insertion order: assigning to a key that is
    present keeps its position, assigning to a new key appends it (\<^const>\<open>AList.update\<close>).
  \<^item> The random sources are parameters: \<open>randint u i\<close> is the value
    \<^verbatim>\<open>random.randint(0, i)\<close> returns at index \<open>i\<close> while user \<open>u\<close> is sampled (each user
    is sampled at most once), \<open>laplace n\<close> is the value of the \<open>n\<close>-th call
    \<^verbatim>\<open>laplace(0, lambd, 1)[0]\<close> (the function is imported from a module outside the
    file), and \<open>hash u\<close> is \<^verbatim>\<open>hash(str(u))\<close>.
  \<^item> A data frame is the list of its rows. \<^verbatim>\<open>sort_values\<close> uses pandas' default
    sorting algorithm, which is not stable: the order in which it leaves rows of equal
    hash is the parameter \<open>tie\<close>, a rank for every row position (see \<open>sort_values\<close>
    below). \<^verbatim>\<open>groupby\<close> (pandas default \<^verbatim>\<open>sort=True\<close>) yields the groups in ascending
    order of the group key with the rows of a group in frame order, and \<^verbatim>\<open>merge\<close> is
    the inner join on the key column.
\<close>

datatype error = ZeroDivisionError | ValueError | TypeError | IndexError | KeyError

definition and_then :: "error + 'a \<Rightarrow> ('a \<Rightarrow> error + 'b) \<Rightarrow> error + 'b" where
  "and_then r f = (case r of Inl e \<Rightarrow> Inl e | Inr x \<Rightarrow> f x)"

type_synonym 'a dict = "('a \<times> real) list"

subsection \<open>reservoir\_sample\<close>

fun reservoir_loop :: "(nat \<Rightarrow> nat) \<Rightarrow> int \<Rightarrow> (nat \<times> 'a) list \<Rightarrow> 'a list \<Rightarrow> error + 'a list" where
  "reservoir_loop randint max_contrib [] reservoir = Inr reservoir"
| "reservoir_loop randint max_contrib ((i, item) # rest) reservoir =
     (if int i < max_contrib then
        reservoir_loop randint max_contrib rest (reservoir @ [item])
      else
        (let m = randint i in
         if int m < max_contrib then
           (if m < length reservoir then
              reservoir_loop randint max_contrib rest (reservoir[m := item])
            else Inl IndexError)
         else reservoir_loop randint max_contrib rest reservoir))"

definition reservoir_sample :: "(nat \<Rightarrow> nat) \<Rightarrow> 'a list \<Rightarrow> int \<Rightarrow> error + 'a list" where
  "reservoir_sample randint iterable max_contrib =
     reservoir_loop randint max_contrib (enumerate 0 iterable) []"

text \<open>Lines 66 to 69 of \<^verbatim>\<open>policy_laplace\<close>: the items attributed to one user.\<close>

definition bounded_items :: "(nat \<Rightarrow> nat) \<Rightarrow> int \<Rightarrow> 'a list \<Rightarrow> error + 'a list" where
  "bounded_items randint max_contrib items =
     (if int (length items) > max_contrib then reservoir_sample randint items max_contrib
      else Inr items)"

subsection \<open>The histogram and the per-user cost table\<close>

text \<open>\<^verbatim>\<open>histogram[x]\<close> on a \<^verbatim>\<open>defaultdict(float)\<close>: a missing key is inserted with 0.0.\<close>

definition hist_get :: "'a dict \<Rightarrow> 'a \<Rightarrow> real \<times> 'a dict" where
  "hist_get h x = (case map_of h x of Some v \<Rightarrow> (v, h) | None \<Rightarrow> (0, h @ [(x, 0)]))"

text \<open>\<^verbatim>\<open>histogram[x] += v\<close>.\<close>

definition hist_add :: "'a \<Rightarrow> real \<Rightarrow> 'a dict \<Rightarrow> 'a dict" where
  "hist_add x v h = (case hist_get h x of (w, h1) \<Rightarrow> AList.update x (w + v) h1)"

text \<open>Lines 71 to 74: the loop that fills \<^verbatim>\<open>cost_dict\<close>; the state is (histogram, cost\_dict).\<close>

fun build_costs :: "real \<Rightarrow> 'a list \<Rightarrow> 'a dict \<times> 'a dict \<Rightarrow> 'a dict \<times> 'a dict" where
  "build_costs gamma [] (h, cd) = (h, cd)"
| "build_costs gamma (item # items) (h, cd) =
     (case hist_get h item of (v, h1) \<Rightarrow>
        if v < gamma then
          (case hist_get h1 item of (v2, h2) \<Rightarrow>
             build_costs gamma items (h2, AList.update item (gamma - v2) cd))
        else build_costs gamma items (h1, cd))"

subsection \<open>The water-filling loop\<close>

text \<open>
  The state of lines 76 to 97. The field \<open>updates\<close> is a ghost: it records, in order, every
  \<^verbatim>\<open>histogram[item] += amount\<close> the loop executes, and no branch reads it.
\<close>

record 'a wf_state =
  histogram :: "'a dict"
  cost_dict :: "'a dict"
  budget :: real
  k :: int
  updates :: "('a \<times> real) list"

text \<open>The histogram after a list of updates \<^verbatim>\<open>histogram[item] += amount\<close>, in order.\<close>

definition replay :: "('a \<times> real) list \<Rightarrow> 'a dict \<Rightarrow> 'a dict" where
  "replay us h = fold (\<lambda>(x, v). hist_add x v) us h"

text \<open>\<^verbatim>\<open>range(idx, k)\<close> for a Python int \<open>k\<close>: empty when \<open>k \<le> idx\<close>.\<close>

definition py_range :: "nat \<Rightarrow> int \<Rightarrow> nat list" where
  "py_range idx n = [idx ..< nat n]"

text \<open>Lines 85 to 88: the inner loop of the branch \<^verbatim>\<open>cost <= budget\<close>.\<close>

fun saturate :: "'a list \<Rightarrow> 'a \<Rightarrow> nat list \<Rightarrow> 'a wf_state \<Rightarrow> error + 'a wf_state" where
  "saturate sorted_items curr_item [] s = Inr s"
| "saturate sorted_items curr_item (j # js) s =
     (if length sorted_items \<le> j then Inl IndexError
      else
        (let remaining_item = sorted_items ! j in
         case map_of (cost_dict s) curr_item of
           None \<Rightarrow> Inl KeyError
         | Some c \<Rightarrow>
             (let s1 = s\<lparr>histogram := hist_add remaining_item c (histogram s),
                        updates := updates s @ [(remaining_item, c)]\<rparr> in
              case map_of (cost_dict s1) remaining_item of
                None \<Rightarrow> Inl KeyError
              | Some cr \<Rightarrow>
                  (case map_of (cost_dict s1) curr_item of
                     None \<Rightarrow> Inl KeyError
                   | Some c' \<Rightarrow>
                       saturate sorted_items curr_item js
                         (s1\<lparr>cost_dict := AList.update remaining_item (cr - c') (cost_dict s1)\<rparr>)))))"

text \<open>Lines 94 to 96: the inner loop of the else branch.\<close>

fun spread :: "'a list \<Rightarrow> nat list \<Rightarrow> 'a wf_state \<Rightarrow> error + 'a wf_state" where
  "spread sorted_items [] s = Inr s"
| "spread sorted_items (j # js) s =
     (if length sorted_items \<le> j then Inl IndexError
      else if k s = 0 then Inl ZeroDivisionError
      else
        (let remaining_item = sorted_items ! j; amount = budget s / real_of_int (k s) in
         spread sorted_items js
           (s\<lparr>histogram := hist_add remaining_item amount (histogram s),
              updates := updates s @ [(remaining_item, amount)]\<rparr>)))"

text \<open>Lines 81 to 97: the loop over \<^verbatim>\<open>enumerate(sorted_items)\<close>, left by \<^verbatim>\<open>break\<close>.\<close>

fun water_fill :: "'a list \<Rightarrow> (nat \<times> 'a) list \<Rightarrow> 'a wf_state \<Rightarrow> error + 'a wf_state" where
  "water_fill sorted_items [] s = Inr s"
| "water_fill sorted_items ((idx, curr_item) # rest) s =
     (case map_of (cost_dict s) curr_item of
        None \<Rightarrow> Inl KeyError
      | Some c \<Rightarrow>
          (let cost = c * real_of_int (k s) in
           if cost \<le> budget s then
             and_then (saturate sorted_items curr_item (py_range idx (k s)) s)
               (\<lambda>s1. water_fill sorted_items rest (s1\<lparr>budget := budget s1 - cost, k := k s1 - 1\<rparr>))
           else spread sorted_items (py_range idx (k s)) s))"

text \<open>Lines 71 to 97: the allocation step of one user, from the bounded items.\<close>

definition allocate :: "real \<Rightarrow> 'a list \<Rightarrow> 'a dict \<Rightarrow> error + 'a wf_state" where
  "allocate gamma items h =
     (case build_costs gamma items (h, []) of (h1, cd) \<Rightarrow>
        (let sorted_items = map fst (sort_key snd cd) in
         water_fill sorted_items (enumerate 0 sorted_items)
           \<lparr>histogram = h1, cost_dict = cd, budget = 1, k = int (length cd), updates = []\<rparr>))"

text \<open>
  Lines 65 to 97: the loop over the groups. The state is the histogram and, as a ghost,
  the list of the updates of each user processed so far.
\<close>

fun allocate_all ::
  "real \<Rightarrow> int \<Rightarrow> ('u \<Rightarrow> nat \<Rightarrow> nat) \<Rightarrow> ('u \<times> 'a list) list \<Rightarrow> 'a dict \<times> ('a \<times> real) list list
     \<Rightarrow> error + ('a dict \<times> ('a \<times> real) list list)" where
  "allocate_all gamma max_contrib randint [] (h, trail) = Inr (h, trail)"
| "allocate_all gamma max_contrib randint ((u, grp) # groups) (h, trail) =
     and_then (bounded_items (randint u) max_contrib grp) (\<lambda>items.
     and_then (allocate gamma items h) (\<lambda>s.
       allocate_all gamma max_contrib randint groups (histogram s, trail @ [updates s])))"

subsection \<open>Thresholds\<close>

text \<open>
  One element of the list of line 55. A negative base with the exponent \<open>1 / i\<close>,
  \<open>i > 1\<close>, gives a complex number in Python, which \<^verbatim>\<open>math.log\<close> rejects with a
  TypeError; with \<open>i = 1\<close> the power is the base itself.
\<close>

definition rho_term :: "real \<Rightarrow> real \<Rightarrow> nat \<Rightarrow> error + real" where
  "rho_term lambd delta i =
     (let b = 1 - delta in
      if b < 0 \<and> i \<noteq> 1 then Inl TypeError
      else
        (let p = (if b < 0 then b else b powr (1 / real i));
             d = 2 * (1 - p) in
         if d = 0 then Inl ZeroDivisionError
         else if 1 / d \<le> 0 then Inl ValueError
         else Inr (1 / real i + lambd * ln (1 / d))))"

fun rho_list :: "real \<Rightarrow> real \<Rightarrow> nat list \<Rightarrow> error + real list" where
  "rho_list lambd delta [] = Inr []"
| "rho_list lambd delta (i # is) =
     and_then (rho_term lambd delta i) (\<lambda>t.
     and_then (rho_list lambd delta is) (\<lambda>ts. Inr (t # ts)))"

text \<open>\<^verbatim>\<open>max\<close> of a list: a ValueError on the empty list.\<close>

definition py_max :: "real list \<Rightarrow> error + real" where
  "py_max xs = (case xs of [] \<Rightarrow> Inl ValueError | x # ys \<Rightarrow> Inr (fold max ys x))"

text \<open>Lines 53 to 57: the result is (lambd, rho, gamma).\<close>

definition thresholds :: "real \<Rightarrow> real \<Rightarrow> int \<Rightarrow> error + (real \<times> real \<times> real)" where
  "thresholds eps delta max_contrib =
     (if eps = 0 then Inl ZeroDivisionError
      else
        (let alpha = 3; lambd = 1 / eps in
         and_then (rho_list lambd delta [1 ..< nat (max_contrib + 1)]) (\<lambda>rhos.
         and_then (py_max rhos) (\<lambda>rho. Inr (lambd, rho, rho + alpha * lambd)))))"

subsection \<open>Noise and release\<close>

text \<open>Lines 99 to 103: the state is the histogram and the list \<^verbatim>\<open>items\<close>.\<close>

fun release_loop :: "real \<Rightarrow> (nat \<Rightarrow> real) \<Rightarrow> (nat \<times> 'a) list \<Rightarrow> 'a dict \<times> 'a list \<Rightarrow> 'a dict \<times> 'a list" where
  "release_loop rho laplace [] (h, items) = (h, items)"
| "release_loop rho laplace ((n, item) # rest) (h, items) =
     (let h1 = hist_add item (laplace n) h in
      case hist_get h1 item of (w, h2) \<Rightarrow>
        if w > rho then release_loop rho laplace rest (h2, items @ [item])
        else release_loop rho laplace rest (h2, items))"

definition release :: "real \<Rightarrow> (nat \<Rightarrow> real) \<Rightarrow> 'a dict \<Rightarrow> 'a list" where
  "release rho laplace h = snd (release_loop rho laplace (enumerate 0 (map fst h)) (h, []))"

subsection \<open>policy\_laplace and run\_dpsu\<close>

text \<open>
  Line 63, \<^verbatim>\<open>df.sort_values("hash")\<close>: the rows in ascending order of the hash. The
  sort is not stable, so rows of equal hash are left in an order of the algorithm's own:
  the row at position \<open>i\<close> of the frame has the rank \<open>tie i\<close> among the rows of its
  hash (rows are first arranged by rank, and the sort by hash keeps that arrangement among
  equal hashes). A constant \<open>tie\<close> is the stable sort; lemma \<open>sort_values_complete\<close>
  shows that every arrangement sorted by hash arises for some \<open>tie\<close>.
\<close>

definition sort_values :: "(nat \<Rightarrow> nat) \<Rightarrow> ('u \<times> 'a \<times> int) list \<Rightarrow> ('u \<times> 'a \<times> int) list" where
  "sort_values tie df =
     sort_key (\<lambda>(u, item, h). h) (map snd (sort_key (\<lambda>(i, row). tie i) (enumerate 0 df)))"

definition groupby :: "('u::linorder \<times> 'a \<times> int) list \<Rightarrow> ('u \<times> 'a list) list" where
  "groupby df =
     map (\<lambda>u. (u, map (\<lambda>(u', item, h). item) (filter (\<lambda>(u', item, h). u' = u) df)))
       (sort (remdups (map fst df)))"

text \<open>Lines 61 to 65: the groups in the order in which the loop visits them.\<close>

definition visited ::
  "(nat \<Rightarrow> nat) \<Rightarrow> ('u::linorder \<Rightarrow> int) \<Rightarrow> ('u \<times> 'a) list \<Rightarrow> ('u \<times> 'a list) list" where
  "visited tie hash df = groupby (sort_values tie (map (\<lambda>(u, item). (u, item, hash u)) df))"

text \<open>The histogram after the loop over the groups, before the noise is added.\<close>

definition policy_histogram ::
  "('u::linorder \<times> 'a) list \<Rightarrow> real \<Rightarrow> real \<Rightarrow> int \<Rightarrow> (nat \<Rightarrow> nat) \<Rightarrow> ('u \<Rightarrow> int)
     \<Rightarrow> ('u \<Rightarrow> nat \<Rightarrow> nat) \<Rightarrow> error + ('a dict \<times> ('a \<times> real) list list)" where
  "policy_histogram df eps delta max_contrib tie hash randint =
     and_then (thresholds eps delta max_contrib) (\<lambda>(lambd, rho, gamma).
       allocate_all gamma max_contrib randint (visited tie hash df) ([], []))"

definition policy_laplace ::
  "('u::linorder \<times> 'a) list \<Rightarrow> real \<Rightarrow> real \<Rightarrow> int \<Rightarrow> (nat \<Rightarrow> nat) \<Rightarrow> ('u \<Rightarrow> int)
     \<Rightarrow> ('u \<Rightarrow> nat \<Rightarrow> nat) \<Rightarrow> (nat \<Rightarrow> real) \<Rightarrow> error + ('u \<times> 'a \<times> int) list" where
  "policy_laplace df eps delta max_contrib tie hash randint laplace =
     and_then (thresholds eps delta max_contrib) (\<lambda>(lambd, rho, gamma).
     and_then (allocate_all gamma max_contrib randint (visited tie hash df) ([], [])) (\<lambda>(h, trail).
       (let items = release rho laplace h in
        Inr (filter (\<lambda>(u, item, hs). item \<in> set items)
               (sort_values tie (map (\<lambda>(u, item). (u, item, hash u)) df))))))"

text \<open>
  \<^verbatim>\<open>preprocess_df_from_query\<close>: the query parser is not part of the file, so the key
  column and the grouping columns it resolves are the parameters \<open>key_col\<close> and
  \<open>group_cols\<close>, two projections of an input row.
\<close>

definition preprocess_df_from_query :: "('r \<Rightarrow> 'u) \<Rightarrow> ('r \<Rightarrow> 'a) \<Rightarrow> 'r list \<Rightarrow> ('u \<times> 'a) list" where
  "preprocess_df_from_query key_col group_cols df = map (\<lambda>row. (key_col row, group_cols row)) df"

text \<open>
  \<^verbatim>\<open>pd.merge(input_df, dpsu_df, on=key)\<close> followed by the drop of the two bookkeeping
  columns: every input row, once for each row of \<open>dpsu_df\<close> with the same key.
\<close>

definition merge_on_key :: "('r \<Rightarrow> 'u) \<Rightarrow> 'r list \<Rightarrow> ('u \<times> 'a \<times> int) list \<Rightarrow> 'r list" where
  "merge_on_key key_col input_df dpsu_df =
     concat (map (\<lambda>row. map (\<lambda>d. row) (filter (\<lambda>(u, item, h). u = key_col row) dpsu_df)) input_df)"

definition run_dpsu ::
  "('r \<Rightarrow> 'u::linorder) \<Rightarrow> ('r \<Rightarrow> 'a) \<Rightarrow> 'r list \<Rightarrow> real \<Rightarrow> real \<Rightarrow> int \<Rightarrow> (nat \<Rightarrow> nat)
     \<Rightarrow> ('u \<Rightarrow> int) \<Rightarrow> ('u \<Rightarrow> nat \<Rightarrow> nat) \<Rightarrow> (nat \<Rightarrow> real) \<Rightarrow> error + 'r list" where
  "run_dpsu key_col group_cols input_df eps delta max_contrib tie hash randint laplace =
     (let preprocessed_df = preprocess_df_from_query key_col group_cols input_df in
      and_then (policy_laplace preprocessed_df eps delta max_contrib tie hash randint laplace)
        (\<lambda>dpsu_df. Inr (merge_on_key key_col input_df dpsu_df)))"

section \<open>The order of ties in sort\_values\<close>

lemma takeWhile_index:
  assumes "distinct p" "m < length p"
  shows "length (takeWhile (\<lambda>j. j \<noteq> p ! m) p) = m"
proof -
  let ?P = "\<lambda>j. j \<noteq> p ! m"
  let ?n = "length (takeWhile ?P p)"
  have "\<And>i. i < m \<Longrightarrow> ?P (p ! i)"
    using assms by (simp add: nth_eq_iff_index_eq)
  then have ge: "m \<le> ?n"
    using assms(2) by (intro length_takeWhile_less_P_nth) simp_all
  have "\<not> m < ?n"
  proof
    assume lt: "m < ?n"
    then have "takeWhile ?P p ! m \<in> set (takeWhile ?P p)" by simp
    then have "?P (takeWhile ?P p ! m)" by (blast dest: set_takeWhileD)
    with takeWhile_nth [OF lt] show False by simp
  qed
  with ge show ?thesis by simp
qed

lemma sort_values_complete:
  assumes p: "distinct p" "set p = {..<length df}"
    and s: "sorted (map (\<lambda>(u, item, h). h) (map ((!) df) p))"
  shows "\<exists>tie. sort_values tie df = map ((!) df) p"
proof -
  define tie where "tie i = length (takeWhile (\<lambda>j. j \<noteq> i) p)" for i
  let ?f = "\<lambda>(i, row). tie i"
  let ?xs = "sort_key ?f (enumerate 0 df)"
  let ?ys = "map (\<lambda>i. (i, df ! i)) p"
  have tie_nth: "\<And>m. m < length p \<Longrightarrow> tie (p ! m) = m"
    unfolding tie_def by (rule takeWhile_index [OF p(1)])
  have tie_p: "map tie p = [0 ..< length p]"
    by (rule nth_equalityI) (simp_all add: tie_nth)
  have inj_tie: "inj_on tie (set p)"
    by (metis distinct_map distinct_upt tie_p)
  have en: "enumerate 0 df = map (\<lambda>i. (i, df ! i)) [0 ..< length df]"
    by (rule nth_equalityI) (simp_all add: nth_enumerate_eq)
  have set_en: "set (enumerate 0 df) = set ?ys"
    using p(2) by (simp add: en atLeast0LessThan)
  have "inj_on ?f (set ?ys)"
  proof (rule inj_onI)
    fix a b assume a: "a \<in> set ?ys" and b: "b \<in> set ?ys" and eq: "?f a = ?f b"
    from a obtain i where i: "i \<in> set p" "a = (i, df ! i)" by auto
    from b obtain j where j: "j \<in> set p" "b = (j, df ! j)" by auto
    from eq i j have t: "tie i = tie j" by simp
    from inj_tie t i(1) j(1) have "i = j" by (rule inj_onD)
    with i j show "a = b" by simp
  qed
  then have inj: "inj_on ?f (set ?xs \<union> set ?ys)"
    using set_en by simp
  have map_ys: "map ?f ?ys = [0 ..< length p]"
    using tie_p by (simp add: comp_def)
  have d_ys: "distinct ?ys"
    using p(1) by (simp add: distinct_map inj_on_def)
  have d_xs: "distinct (map ?f ?xs)"
  proof -
    have "distinct ?xs" by simp
    moreover have "inj_on ?f (set ?xs)"
      using inj by (rule inj_on_subset) simp
    ultimately show ?thesis by (simp add: distinct_map)
  qed
  have "?xs = ?ys"
  proof (rule map_sorted_distinct_set_unique [OF inj])
    show "sorted (map ?f ?xs)" by (rule sorted_sort_key)
    show "distinct (map ?f ?xs)" by (rule d_xs)
    show "sorted (map ?f ?ys)" by (simp only: map_ys sorted_upt)
    show "distinct (map ?f ?ys)" by (simp only: map_ys distinct_upt)
    show "set ?xs = set ?ys" using set_en by simp
  qed
  then have "map snd ?xs = map ((!) df) p"
    by (simp add: comp_def)
  then have "sort_values tie df = sort_key (\<lambda>(u, item, h). h) (map ((!) df) p)"
    by (simp add: sort_values_def)
  also have "\<dots> = map ((!) df) p"
    using s by (rule sort_key_id_if_sorted)
  finally show ?thesis by blast
qed

lemma sort_values_sorted: "sorted (map (\<lambda>(u, item, h). h) (sort_values tie df))"
  unfolding sort_values_def by (rule sorted_sort_key)

lemma set_sort_values: "set (sort_values tie df) = set df"
proof -
  have "set (map snd (enumerate 0 df)) = set df" by simp
  then show ?thesis
    by (simp add: sort_values_def del: map_snd_enumerate)
qed

lemma length_sort_values: "length (sort_values tie df) = length df"
  by (simp add: sort_values_def)

lemma sort_values_stable: "sort_values (\<lambda>i. 0) df = sort_key (\<lambda>(u, item, h). h) df"
proof -
  have "sort_key (\<lambda>(i, row). 0::nat) (enumerate 0 df) = enumerate 0 df"
    by (rule sort_key_id_if_sorted) (simp add: sorted_iff_nth_mono split: prod.splits)
  then show ?thesis by (simp add: sort_values_def)
qed

lemma and_then_Inr [simp]: "and_then (Inr x) f = f x"
  by (simp add: and_then_def)

lemma and_then_Inl [simp]: "and_then (Inl e) f = Inl e"
  by (simp add: and_then_def)

section \<open>Reservoir sampling\<close>

lemma reservoir_loop_spec:
  assumes "int (length res) = min (int i) (max 0 mc)"
  shows "\<exists>ys. reservoir_loop rnd mc (enumerate i xs) res = Inr ys
           \<and> int (length ys) = min (int (i + length xs)) (max 0 mc)
           \<and> set ys \<subseteq> set res \<union> set xs
           \<and> (int (i + length xs) \<le> mc \<longrightarrow> ys = res @ xs)"
  using assms
proof (induction xs arbitrary: i res)
  case Nil
  then show ?case by simp
next
  case (Cons x xs)
  show ?case
  proof (cases "int i < mc")
    case True
    with Cons.prems have len: "int (length (res @ [x])) = min (int (Suc i)) (max 0 mc)"
      by simp
    from Cons.IH [OF len] True show ?thesis by auto
  next
    case False
    with Cons.prems have full: "int (length res) = max 0 mc" by simp
    show ?thesis
    proof (cases "int (rnd i) < mc")
      case True
      with full have lt: "rnd i < length res" by simp
      from full False have len: "int (length (res[rnd i := x])) = min (int (Suc i)) (max 0 mc)"
        by simp
      have sub: "set (res[rnd i := x]) \<subseteq> insert x (set res)"
        by (rule set_update_subset_insert)
      from Cons.IH [OF len] False True lt sub show ?thesis by auto
    next
      case nd: False
      from full False have len: "int (length res) = min (int (Suc i)) (max 0 mc)"
        by simp
      from Cons.IH [OF len] False nd show ?thesis by auto
    qed
  qed
qed

lemma reservoir_sample_spec:
  "\<exists>ys. reservoir_sample rnd xs mc = Inr ys
         \<and> int (length ys) = min (int (length xs)) (max 0 mc)
         \<and> set ys \<subseteq> set xs"
  using reservoir_loop_spec [of "[]" 0 mc rnd xs]
  by (auto simp: reservoir_sample_def)

lemma reservoir_loop_append:
  "reservoir_loop rnd mc (ps @ qs) res
     = and_then (reservoir_loop rnd mc ps res) (reservoir_loop rnd mc qs)"
proof (induction ps arbitrary: res)
  case Nil
  then show ?case by simp
next
  case (Cons p ps)
  then show ?case by (cases p) (simp add: Let_def)
qed

lemma reservoir_sample_snoc:
  assumes "reservoir_sample rnd xs mc = Inr res"
  shows "reservoir_sample rnd (xs @ [x]) mc =
     Inr (if int (length xs) < mc then res @ [x]
          else if int (rnd (length xs)) < mc then res[rnd (length xs) := x]
          else res)"
proof -
  from reservoir_sample_spec [of rnd xs mc] assms
  have len: "int (length res) = min (int (length xs)) (max 0 mc)" by simp
  have "reservoir_sample rnd (xs @ [x]) mc = reservoir_loop rnd mc [(length xs, x)] res"
    using assms by (simp add: reservoir_sample_def enumerate_append_eq reservoir_loop_append)
  also have "\<dots> = Inr (if int (length xs) < mc then res @ [x]
          else if int (rnd (length xs)) < mc then res[rnd (length xs) := x]
          else res)"
    using len by (auto simp: Let_def)
  finally show ?thesis .
qed

section \<open>Contribution bound\<close>

text \<open>
  C6. For every sequence of \<open>n\<close> items and every \<open>max_contrib\<close> of at least 1, the bounding
  step attributes exactly \<open>min n max_contrib\<close> items to the user, never fails, and returns
  items of the input only. When \<open>n\<close> is at most \<open>max_contrib\<close> the items are passed
  through unchanged; otherwise \<^verbatim>\<open>reservoir_sample\<close> returns exactly \<open>max_contrib\<close> items.
  The reservoir is what the rule of the claim builds: it is empty for the empty input,
  and for the item \<open>x\<close> at index \<open>i\<close> (the length of the input \<open>xs\<close> before it) the sample
  of \<open>xs @ [x]\<close> is the sample of \<open>xs\<close> with \<open>x\<close> appended when \<open>i < max_contrib\<close>, with
  slot \<open>m\<close> replaced by \<open>x\<close> when the draw \<open>m = randint i\<close> is less than \<open>max_contrib\<close>,
  and unchanged otherwise. This holds for every sequence of draws.
\<close>

theorem contribution_bound:
  assumes "1 \<le> max_contrib"
  shows "(\<exists>ys. bounded_items randint max_contrib items = Inr ys
     \<and> int (length ys) = min (int (length items)) max_contrib
     \<and> set ys \<subseteq> set items
     \<and> (int (length items) \<le> max_contrib \<longrightarrow> ys = items)
     \<and> (int (length items) > max_contrib \<longrightarrow>
          reservoir_sample randint items max_contrib = Inr ys \<and> int (length ys) = max_contrib))
   \<and> reservoir_sample randint [] max_contrib = Inr []
   \<and> (\<exists>res. reservoir_sample randint xs max_contrib = Inr res
     \<and> reservoir_sample randint (xs @ [x]) max_contrib =
         Inr (if int (length xs) < max_contrib then res @ [x]
              else if int (randint (length xs)) < max_contrib then res[randint (length xs) := x]
              else res))"
proof (intro conjI)
  show "\<exists>ys. bounded_items randint max_contrib items = Inr ys
     \<and> int (length ys) = min (int (length items)) max_contrib
     \<and> set ys \<subseteq> set items
     \<and> (int (length items) \<le> max_contrib \<longrightarrow> ys = items)
     \<and> (int (length items) > max_contrib \<longrightarrow>
          reservoir_sample randint items max_contrib = Inr ys \<and> int (length ys) = max_contrib)"
  proof (cases "int (length items) > max_contrib")
    case True
    from reservoir_sample_spec [of randint items max_contrib] obtain ys where
      ys: "reservoir_sample randint items max_contrib = Inr ys"
          "int (length ys) = min (int (length items)) (max 0 max_contrib)"
          "set ys \<subseteq> set items"
      by blast
    with True assms show ?thesis
      by (simp add: bounded_items_def)
  next
    case False
    then show ?thesis by (simp add: bounded_items_def)
  qed
  show "reservoir_sample randint [] max_contrib = Inr []"
    by (simp add: reservoir_sample_def)
  from reservoir_sample_spec [of randint xs max_contrib] obtain res where
    res: "reservoir_sample randint xs max_contrib = Inr res" by blast
  from reservoir_sample_snoc [OF res, of x] res
  show "\<exists>res. reservoir_sample randint xs max_contrib = Inr res
     \<and> reservoir_sample randint (xs @ [x]) max_contrib =
         Inr (if int (length xs) < max_contrib then res @ [x]
              else if int (randint (length xs)) < max_contrib then res[randint (length xs) := x]
              else res)"
    by simp
qed

text \<open>
  With \<open>max_contrib = 2\<close> and the draws 1 at index 2, 3 at index 3 and 0 at index 4: the
  items a and b are stored, c replaces slot 1, d is dropped and e replaces slot 0.
\<close>

theorem contribution_bound_witness:
  "(1::int) \<le> 2
   \<and> bounded_items (\<lambda>i. if i = 2 then 1 else if i = 3 then 3 else 0) 2 [''a'', ''b'', ''c'', ''d'', ''e'']
       = Inr [''e'', ''c'']
   \<and> reservoir_sample (\<lambda>i. if i = 2 then 1 else if i = 3 then 3 else 0) [''a'', ''b''] 2
       = Inr [''a'', ''b'']
   \<and> reservoir_sample (\<lambda>i. if i = 2 then 1 else if i = 3 then 3 else 0) ([''a'', ''b''] @ [''c'']) 2
       = Inr [''a'', ''c'']
   \<and> reservoir_sample (\<lambda>i. if i = 2 then 1 else if i = 3 then 3 else 0) ([''a'', ''b'', ''c''] @ [''d'']) 2
       = Inr [''a'', ''c'']
   \<and> bounded_items (\<lambda>i. 0) 2 [''a''] = Inr [''a'']"
  using contribution_bound [of 2 "\<lambda>i. if i = 2 then 1 else if i = 3 then 3 else 0"
      "[''a'', ''b'', ''c'', ''d'', ''e'']" "[''a'', ''b'']" "''c''"]
  by (simp add: bounded_items_def reservoir_sample_def)

subsection \<open>dictionary helpers\<close>

lemma hist_get_present: "map_of h x = Some v \<Longrightarrow> hist_get h x = (v, h)"
  by (simp add: hist_get_def)

lemma hist_add_present: "map_of h x = Some w \<Longrightarrow> hist_add x v h = AList.update x (w + v) h"
  by (simp add: hist_add_def hist_get_def)

lemma hist_add_zero: "map_of h x = Some w \<Longrightarrow> hist_add x 0 h = h"
  by (simp add: hist_add_present update_triv)

lemma map_of_hist_add:
  "map_of (hist_add x v h) y =
     (if y = x then Some ((case map_of h x of None \<Rightarrow> 0 | Some w \<Rightarrow> w) + v) else map_of h y)"
proof (cases "map_of h x")
  case None
  then have "x \<notin> fst ` set h" by (simp add: map_of_eq_None_iff)
  with None show ?thesis
    by (auto simp: hist_add_def hist_get_def update_conv' map_add_def split: option.splits)
next
  case (Some w)
  then show ?thesis
    by (simp add: hist_add_def hist_get_def update_conv')
qed

lemma distinct_hist_add: "distinct (map fst h) \<Longrightarrow> distinct (map fst (hist_add x v h))"
  by (auto simp: hist_add_def hist_get_def distinct_update map_of_eq_None_iff split: option.splits)

lemma keys_hist_add: "fst ` set (hist_add x v h) = insert x (fst ` set h)"
  by (auto simp: hist_add_def hist_get_def dom_update split: option.splits)

subsection \<open>the ghost field records the updates\<close>

lemma replay_append [simp]: "replay (us @ vs) h = replay vs (replay us h)"
  by (simp add: replay_def)

lemma replay_Nil [simp]: "replay [] h = h"
  by (simp add: replay_def)

lemma replay_Cons [simp]: "replay ((x, v) # us) h = replay us (hist_add x v h)"
  by (simp add: replay_def)

lemma saturate_replay:
  "saturate si cur js s = Inr s' \<Longrightarrow>
     \<exists>us. updates s' = updates s @ us \<and> histogram s' = replay us (histogram s)"
proof (induction js arbitrary: s)
  case Nil
  then show ?case by auto
next
  case (Cons j js)
  from Cons.prems obtain c cr c' where
    rec: "saturate si cur js
           (s\<lparr>histogram := hist_add (si ! j) c (histogram s),
              updates := updates s @ [(si ! j, c)],
              cost_dict := AList.update (si ! j) (cr - c') (cost_dict s)\<rparr>) = Inr s'"
    by (auto simp: Let_def split: if_splits option.splits)
  from Cons.IH [OF rec] show ?case by auto
qed

lemma spread_replay:
  "spread si js s = Inr s' \<Longrightarrow>
     \<exists>us. updates s' = updates s @ us \<and> histogram s' = replay us (histogram s)"
proof (induction js arbitrary: s)
  case Nil
  then show ?case by auto
next
  case (Cons j js)
  from Cons.prems have
    rec: "spread si js
           (s\<lparr>histogram := hist_add (si ! j) (budget s / real_of_int (k s)) (histogram s),
              updates := updates s @ [(si ! j, budget s / real_of_int (k s))]\<rparr>) = Inr s'"
    by (auto simp: Let_def split: if_splits)
  from Cons.IH [OF rec] show ?case by auto
qed

lemma water_fill_replay:
  "water_fill si rest s = Inr s' \<Longrightarrow>
     \<exists>us. updates s' = updates s @ us \<and> histogram s' = replay us (histogram s)"
proof (induction rest arbitrary: s)
  case Nil
  then show ?case by auto
next
  case (Cons p rest)
  obtain idx cur where p: "p = (idx, cur)" by (cases p)
  from Cons.prems p obtain c where c: "map_of (cost_dict s) cur = Some c"
    by (auto split: option.splits)
  show ?case
  proof (cases "c * real_of_int (k s) \<le> budget s")
    case True
    with Cons.prems p c obtain s1 where
      s1: "saturate si cur (py_range idx (k s)) s = Inr s1" and
      rec: "water_fill si rest (s1\<lparr>budget := budget s1 - c * real_of_int (k s), k := k s1 - 1\<rparr>) = Inr s'"
      by (auto simp: and_then_def split: sum.splits)
    from saturate_replay [OF s1] Cons.IH [OF rec] show ?thesis by auto
  next
    case False
    with Cons.prems p c have "spread si (py_range idx (k s)) s = Inr s'"
      by simp
    from spread_replay [OF this] show ?thesis .
  qed
qed

lemma saturate_zero:
  assumes "map_of (cost_dict s) cur = Some 0"
    and "\<forall>j\<in>set js. j < length si \<and> map_of (cost_dict s) (si ! j) \<noteq> None
            \<and> map_of (histogram s) (si ! j) \<noteq> None"
  shows "saturate si cur js s = Inr (s\<lparr>updates := updates s @ map (\<lambda>j. (si ! j, 0)) js\<rparr>)"
  using assms
proof (induction js arbitrary: s)
  case Nil
  then show ?case by simp
next
  case (Cons j js)
  from Cons.prems obtain cr w where
    j: "j < length si" and cr: "map_of (cost_dict s) (si ! j) = Some cr"
    and w: "map_of (histogram s) (si ! j) = Some w"
    by auto
  let ?s1 = "s\<lparr>updates := updates s @ [(si ! j, 0)]\<rparr>"
  have step: "saturate si cur (j # js) s = saturate si cur js ?s1"
    using j cr w Cons.prems(1)
    by (simp add: Let_def hist_add_zero update_triv)
  have "saturate si cur js ?s1 = Inr (?s1\<lparr>updates := updates ?s1 @ map (\<lambda>j. (si ! j, 0)) js\<rparr>)"
    using Cons.prems by (intro Cons.IH) auto
  with step show ?case by simp
qed

lemma saturate_first:
  assumes "idx < m" "m \<le> length si"
    and c: "map_of (cost_dict s) (si ! idx) = Some c"
    and w: "map_of (histogram s) (si ! idx) = Some w"
    and pres: "\<forall>j. idx \<le> j \<and> j < m \<longrightarrow> map_of (cost_dict s) (si ! j) \<noteq> None
            \<and> map_of (histogram s) (si ! j) \<noteq> None"
  shows "saturate si (si ! idx) [idx ..< m] s =
     Inr (s\<lparr>histogram := AList.update (si ! idx) (w + c) (histogram s),
            cost_dict := AList.update (si ! idx) 0 (cost_dict s),
            updates := updates s @ (si ! idx, c) # map (\<lambda>j. (si ! j, 0)) [Suc idx ..< m]\<rparr>)"
proof -
  let ?cur = "si ! idx"
  let ?s2 = "s\<lparr>histogram := AList.update ?cur (w + c) (histogram s),
               updates := updates s @ [(?cur, c)],
               cost_dict := AList.update ?cur 0 (cost_dict s)\<rparr>"
  have split: "[idx ..< m] = idx # [Suc idx ..< m]"
    using assms(1) by (simp add: upt_conv_Cons)
  have step: "saturate si ?cur (idx # [Suc idx ..< m]) s = saturate si ?cur [Suc idx ..< m] ?s2"
    using assms(1,2) c w by (simp add: Let_def hist_add_present)
  have zero: "map_of (cost_dict ?s2) ?cur = Some 0"
    by (simp add: update_conv')
  have pres2: "\<forall>j\<in>set [Suc idx ..< m]. j < length si \<and> map_of (cost_dict ?s2) (si ! j) \<noteq> None
            \<and> map_of (histogram ?s2) (si ! j) \<noteq> None"
    using pres assms(2) by (auto simp: update_conv')
  from saturate_zero [OF zero pres2] step split show ?thesis by simp
qed

lemma spread_closed:
  assumes "k s \<noteq> 0" "\<forall>j\<in>set js. j < length si"
  shows "spread si js s =
     Inr (s\<lparr>histogram := replay (map (\<lambda>j. (si ! j, budget s / real_of_int (k s))) js) (histogram s),
            updates := updates s @ map (\<lambda>j. (si ! j, budget s / real_of_int (k s))) js\<rparr>)"
  using assms
proof (induction js arbitrary: s)
  case Nil
  then show ?case by simp
next
  case (Cons j js)
  let ?a = "budget s / real_of_int (k s)"
  let ?s1 = "s\<lparr>histogram := hist_add (si ! j) ?a (histogram s),
               updates := updates s @ [(si ! j, ?a)]\<rparr>"
  have step: "spread si (j # js) s = spread si js ?s1"
    using Cons.prems by (simp add: Let_def)
  have "spread si js ?s1 =
     Inr (?s1\<lparr>histogram := replay (map (\<lambda>j. (si ! j, budget ?s1 / real_of_int (k ?s1))) js) (histogram ?s1),
            updates := updates ?s1 @ map (\<lambda>j. (si ! j, budget ?s1 / real_of_int (k ?s1))) js\<rparr>)"
    using Cons.prems by (intro Cons.IH) auto
  with step show ?case by simp
qed

lemma map_of_replay_same:
  assumes "distinct xs"
  shows "map_of (replay (map (\<lambda>x. (x, a)) xs) h) y =
     (if y \<in> set xs then Some ((case map_of h y of None \<Rightarrow> 0 | Some w \<Rightarrow> w) + a) else map_of h y)"
  using assms
proof (induction xs arbitrary: h)
  case Nil
  then show ?case by simp
next
  case (Cons x xs)
  then show ?case by (simp add: map_of_hist_add)
qed

lemma distinct_replay: "distinct (map fst h) \<Longrightarrow> distinct (map fst (replay us h))"
proof (induction us arbitrary: h)
  case Nil
  then show ?case by simp
next
  case (Cons u us)
  then show ?case by (cases u) (simp add: distinct_hist_add)
qed

lemma sum_list_const_map: "sum_list (map snd (map (\<lambda>j. (f j, a::real)) js)) = real (length js) * a"
  by (induction js) (simp_all add: algebra_simps)

lemma water_fill_inv:
  assumes fx: "distinct si" "length cs = length si" "sorted cs" "\<forall>c\<in>set cs. 0 < c"
    and "idx \<le> length si"
    and "k s = int (length si) - int idx"
    and "0 \<le> budget s"
    and "\<forall>j. idx \<le> j \<and> j < length si \<longrightarrow>
           map_of (cost_dict s) (si ! j) = Some (cs ! j)
           \<and> map_of (histogram s) (si ! j) = Some (gamma - cs ! j)"
  shows "\<exists>s' us. water_fill si (enumerate idx (take m (drop idx si))) s = Inr s'
       \<and> 0 \<le> budget s'
       \<and> int (length si) - int idx - int m \<le> k s'
       \<and> updates s' = updates s @ us
       \<and> sum_list (map snd us) \<le> budget s
       \<and> (\<forall>p\<in>set us. 0 \<le> snd p)
       \<and> ((\<forall>x v. map_of (histogram s) x = Some v \<longrightarrow> v \<le> gamma)
            \<longrightarrow> (\<forall>x v. map_of (histogram s') x = Some v \<longrightarrow> v \<le> gamma))"
  using assms(5-)
proof (induction m arbitrary: idx s)
  case 0
  then show ?case by simp
next
  case (Suc m)
  let ?n = "length si"
  show ?case
  proof (cases "idx < ?n")
    case False
    with Suc.prems have "drop idx si = []" by simp
    then show ?thesis using Suc.prems by simp
  next
    case lt: True
  let ?cur = "si ! idx"
  let ?c = "cs ! idx"
  let ?K = "real_of_int (k s)"
  let ?js = "[idx ..< ?n - idx]"
  have kpos: "1 \<le> k s" using Suc.prems(2) lt by simp
  have Kpos: "1 \<le> ?K" using kpos by simp
  have cpos: "0 < ?c" using fx(2,4) lt by simp
  have cur: "map_of (cost_dict s) ?cur = Some ?c"
    and wcur: "map_of (histogram s) ?cur = Some (gamma - ?c)"
    using Suc.prems(4) lt by auto
  have range: "py_range idx (k s) = ?js"
    using Suc.prems(2) by (simp add: py_range_def nat_diff_distrib')
  have unfold: "enumerate idx (take (Suc m) (drop idx si))
      = (idx, ?cur) # enumerate (Suc idx) (take m (drop (Suc idx) si))"
    using lt by (simp add: Cons_nth_drop_Suc [symmetric])
  show ?thesis
  proof (cases "?c * ?K \<le> budget s")
    case True
    define us1 where "us1 = (if idx < ?n - idx
        then (?cur, ?c) # map (\<lambda>j. (si ! j, 0)) [Suc idx ..< ?n - idx] else [])"
    define s1 where "s1 = (if idx < ?n - idx
        then s\<lparr>histogram := AList.update ?cur (gamma - ?c + ?c) (histogram s),
               cost_dict := AList.update ?cur 0 (cost_dict s),
               updates := updates s @ us1\<rparr>
        else s)"
    have sat: "saturate si ?cur ?js s = Inr s1"
    proof (cases "idx < ?n - idx")
      case t: True
      have pres: "\<forall>j. idx \<le> j \<and> j < ?n - idx \<longrightarrow> map_of (cost_dict s) (si ! j) \<noteq> None
            \<and> map_of (histogram s) (si ! j) \<noteq> None"
        using Suc.prems(4) by auto
      from saturate_first [OF t _ cur wcur pres] t show ?thesis
        by (simp add: s1_def us1_def)
    next
      case False
      then show ?thesis by (simp add: s1_def)
    qed
    let ?s2 = "s1\<lparr>budget := budget s1 - ?c * ?K, k := k s1 - 1\<rparr>"
    have wf: "water_fill si (enumerate idx (take (Suc m) (drop idx si))) s
                = water_fill si (enumerate (Suc idx) (take m (drop (Suc idx) si))) ?s2"
      using unfold cur True range sat by simp
    have s1_upd: "updates s1 = updates s @ us1"
      by (simp add: s1_def us1_def)
    have s1_bk: "budget s1 = budget s" "k s1 = k s"
      by (simp_all add: s1_def)
    have sum1: "sum_list (map snd us1) \<le> ?c * ?K"
    proof -
      have "sum_list (map snd us1) \<le> ?c"
        using cpos by (simp add: us1_def comp_def)
      also have "?c \<le> ?c * ?K"
        using cpos Kpos by simp
      finally show ?thesis .
    qed
    have nn1: "\<forall>p\<in>set us1. 0 \<le> snd p"
      using cpos by (auto simp: us1_def)
    have untouched: "\<forall>j. Suc idx \<le> j \<and> j < ?n \<longrightarrow>
           map_of (cost_dict ?s2) (si ! j) = Some (cs ! j)
           \<and> map_of (histogram ?s2) (si ! j) = Some (gamma - cs ! j)"
    proof (intro allI impI)
      fix j assume j: "Suc idx \<le> j \<and> j < ?n"
      with fx(1) lt have "si ! j \<noteq> ?cur"
        by (simp add: nth_eq_iff_index_eq)
      with Suc.prems(4) j show "map_of (cost_dict ?s2) (si ! j) = Some (cs ! j)
           \<and> map_of (histogram ?s2) (si ! j) = Some (gamma - cs ! j)"
        by (simp add: s1_def update_conv')
    qed
    have cap1: "(\<forall>x v. map_of (histogram s) x = Some v \<longrightarrow> v \<le> gamma)
            \<longrightarrow> (\<forall>x v. map_of (histogram ?s2) x = Some v \<longrightarrow> v \<le> gamma)"
      by (auto simp: s1_def update_conv' split: if_splits)
    have "\<exists>s' us. water_fill si (enumerate (Suc idx) (take m (drop (Suc idx) si))) ?s2 = Inr s'
       \<and> 0 \<le> budget s'
       \<and> int ?n - int (Suc idx) - int m \<le> k s'
       \<and> updates s' = updates ?s2 @ us
       \<and> sum_list (map snd us) \<le> budget ?s2
       \<and> (\<forall>p\<in>set us. 0 \<le> snd p)
       \<and> ((\<forall>x v. map_of (histogram ?s2) x = Some v \<longrightarrow> v \<le> gamma)
            \<longrightarrow> (\<forall>x v. map_of (histogram s') x = Some v \<longrightarrow> v \<le> gamma))"
    proof (rule Suc.IH)
      show "Suc idx \<le> ?n" using lt by simp
      show "k ?s2 = int ?n - int (Suc idx)" using Suc.prems(2) s1_bk by simp
      show "0 \<le> budget ?s2" using True s1_bk by simp
      show "\<forall>j. Suc idx \<le> j \<and> j < ?n \<longrightarrow>
           map_of (cost_dict ?s2) (si ! j) = Some (cs ! j)
           \<and> map_of (histogram ?s2) (si ! j) = Some (gamma - cs ! j)"
        by (rule untouched)
    qed
    then obtain s' us where
      r: "water_fill si (enumerate (Suc idx) (take m (drop (Suc idx) si))) ?s2 = Inr s'"
         "0 \<le> budget s'"
         "updates s' = updates ?s2 @ us"
         "sum_list (map snd us) \<le> budget ?s2"
         "\<forall>p\<in>set us. 0 \<le> snd p"
         "(\<forall>x v. map_of (histogram ?s2) x = Some v \<longrightarrow> v \<le> gamma)
            \<longrightarrow> (\<forall>x v. map_of (histogram s') x = Some v \<longrightarrow> v \<le> gamma)"
         "int ?n - int (Suc idx) - int m \<le> k s'"
      by blast
    have a: "water_fill si (enumerate idx (take (Suc m) (drop idx si))) s = Inr s'"
      using wf r(1) by simp
    have kk: "int ?n - int idx - int (Suc m) \<le> k s'"
      using r(7) by simp
    have b: "updates s' = updates s @ (us1 @ us)"
      using r(3) s1_upd by simp
    have c: "sum_list (map snd (us1 @ us)) \<le> budget s"
      using r(4) sum1 s1_bk by simp
    have d: "\<forall>p\<in>set (us1 @ us). 0 \<le> snd p"
      using r(5) nn1 by auto
    have e: "(\<forall>x v. map_of (histogram s) x = Some v \<longrightarrow> v \<le> gamma)
            \<longrightarrow> (\<forall>x v. map_of (histogram s') x = Some v \<longrightarrow> v \<le> gamma)"
      using cap1 r(6) by blast
    from a r(2) kk b c d e show ?thesis by blast
  next
    case False
    let ?a = "budget s / ?K"
    let ?us = "map (\<lambda>j. (si ! j, ?a)) ?js"
    let ?s' = "s\<lparr>histogram := replay ?us (histogram s), updates := updates s @ ?us\<rparr>"
    have k0: "k s \<noteq> 0" using kpos by simp
    have inr: "\<forall>j\<in>set ?js. j < ?n" by auto
    have wf: "water_fill si (enumerate idx (take (Suc m) (drop idx si))) s = Inr ?s'"
      using unfold cur False range spread_closed [OF k0 inr] by simp
    have a0: "0 \<le> ?a" using Suc.prems(3) Kpos by simp
    have alt: "?a < ?c"
    proof -
      have "0 < ?K" using Kpos by simp
      with False show ?thesis by (simp add: pos_divide_less_eq)
    qed
    have len: "real (length ?js) \<le> ?K"
      using Suc.prems(2) lt by simp
    have sum: "sum_list (map snd ?us) \<le> budget s"
    proof -
      have "sum_list (map snd ?us) = real (length ?js) * ?a"
        by (rule sum_list_const_map)
      also have "\<dots> \<le> ?K * ?a"
        using len a0 by (rule mult_right_mono)
      also have "\<dots> = budget s" using Kpos by simp
      finally show ?thesis .
    qed
    have nn: "\<forall>p\<in>set ?us. 0 \<le> snd p"
      using a0 by auto
    have cap: "(\<forall>x v. map_of (histogram s) x = Some v \<longrightarrow> v \<le> gamma)
            \<longrightarrow> (\<forall>x v. map_of (histogram ?s') x = Some v \<longrightarrow> v \<le> gamma)"
    proof (intro impI allI)
      fix x v
      assume old: "\<forall>x v. map_of (histogram s) x = Some v \<longrightarrow> v \<le> gamma"
        and v: "map_of (histogram ?s') x = Some v"
      have us_eq: "?us = map (\<lambda>y. (y, ?a)) (map ((!) si) ?js)"
        by simp
      have "inj_on ((!) si) (set ?js)"
        using fx(1) by (auto simp: inj_on_def nth_eq_iff_index_eq)
      then have dist: "distinct (map ((!) si) ?js)"
        by (simp add: distinct_map)
      have m: "map_of (replay ?us (histogram s)) x =
         (if x \<in> set (map ((!) si) ?js)
          then Some ((case map_of (histogram s) x of None \<Rightarrow> 0 | Some w \<Rightarrow> w) + ?a)
          else map_of (histogram s) x)"
        unfolding us_eq by (rule map_of_replay_same [OF dist])
      show "v \<le> gamma"
      proof (cases "x \<in> set (map ((!) si) ?js)")
        case True
        then obtain j where j: "idx \<le> j" "j < ?n - idx" "x = si ! j" by auto
        then have jn: "j < ?n" by simp
        with Suc.prems(4) j have w: "map_of (histogram s) x = Some (gamma - cs ! j)"
          by simp
        have "?c \<le> cs ! j"
          using fx(2,3) j(1) jn by (simp add: sorted_nth_mono)
        with alt have "?a \<le> cs ! j" by simp
        moreover from m True w v have "v = gamma - cs ! j + ?a" by simp
        ultimately show ?thesis by simp
      next
        case False
        with m v old show ?thesis by simp
      qed
    qed
    have upd: "updates ?s' = updates s @ ?us" by simp
    have bud: "0 \<le> budget ?s'" using Suc.prems(3) by simp
    have kk: "int ?n - int idx - int (Suc m) \<le> k ?s'" using Suc.prems(2) by simp
    from wf bud kk upd sum nn cap show ?thesis by blast
  qed
  qed
qed

lemma hist_get_cases:
  "hist_get h x = (v, h1) \<Longrightarrow>
     map_of h1 = (map_of h)(x \<mapsto> v)
     \<and> (map_of h x = Some v \<and> h1 = h \<or> map_of h x = None \<and> v = 0 \<and> h1 = h @ [(x, 0)])"
  by (auto simp: hist_get_def map_add_def fun_eq_iff split: option.splits)

lemma hist_get_distinct:
  "hist_get h x = (v, h1) \<Longrightarrow> distinct (map fst h) \<Longrightarrow> distinct (map fst h1)"
  by (auto simp: hist_get_def map_of_eq_None_iff split: option.splits)

lemma build_costs_spec:
  assumes "\<forall>x c. map_of cd x = Some c \<longrightarrow> 0 < c \<and> map_of h x = Some (gamma - c)"
    and "distinct (map fst cd)"
    and "build_costs gamma items (h, cd) = (h', cd')"
  shows "(\<forall>x c. map_of cd' x = Some c \<longrightarrow> 0 < c \<and> map_of h' x = Some (gamma - c))
       \<and> distinct (map fst cd')
       \<and> (\<forall>x v. map_of h x = Some v \<longrightarrow> map_of h' x = Some v)
       \<and> (\<forall>x v. map_of h' x = Some v \<longrightarrow> map_of h x = Some v \<or> v = 0)
       \<and> (distinct (map fst h) \<longrightarrow> distinct (map fst h'))"
  using assms
proof (induction items arbitrary: h cd)
  case Nil
  then show ?case by simp
next
  case (Cons item items)
  obtain v h1 where g: "hist_get h item = (v, h1)" by (cases "hist_get h item")
  from hist_get_cases [OF g] have
    m1: "map_of h1 = (map_of h)(item \<mapsto> v)" and
    alt: "map_of h item = Some v \<or> map_of h item = None \<and> v = 0"
    by auto
  have keep: "\<forall>x w. map_of h x = Some w \<longrightarrow> map_of h1 x = Some w"
    using m1 alt by auto
  have new: "\<forall>x w. map_of h1 x = Some w \<longrightarrow> map_of h x = Some w \<or> w = 0"
    using m1 alt by (auto split: if_splits)
  have dist1: "distinct (map fst h) \<longrightarrow> distinct (map fst h1)"
    using hist_get_distinct [OF g] by simp
  have g2: "hist_get h1 item = (v, h1)"
    using m1 by (simp add: hist_get_present)
  show ?case
  proof (cases "v < gamma")
    case True
    let ?cd1 = "AList.update item (gamma - v) cd"
    have rec: "build_costs gamma items (h1, ?cd1) = (h', cd')"
      using Cons.prems(3) g g2 True by simp
    have p1: "\<forall>x c. map_of ?cd1 x = Some c \<longrightarrow> 0 < c \<and> map_of h1 x = Some (gamma - c)"
      using Cons.prems(1) True m1 keep by (auto simp: update_conv')
    have d1: "distinct (map fst ?cd1)"
      using Cons.prems(2) by (simp add: distinct_update)
    from Cons.IH [OF p1 d1 rec] keep new dist1 show ?thesis
      by (meson)
  next
    case False
    have rec: "build_costs gamma items (h1, cd) = (h', cd')"
      using Cons.prems(3) g False by simp
    have p1: "\<forall>x c. map_of cd x = Some c \<longrightarrow> 0 < c \<and> map_of h1 x = Some (gamma - c)"
      using Cons.prems(1) keep by blast
    from Cons.IH [OF p1 Cons.prems(2) rec] keep new dist1 show ?thesis
      by (meson)
  qed
qed

lemma sort_key_facts:
  assumes "distinct (map fst cd)"
  shows "distinct (map fst (sort_key snd cd))"
    and "\<And>j. j < length cd \<Longrightarrow>
           map_of cd (map fst (sort_key snd cd) ! j) = Some (map snd (sort_key snd cd) ! j)"
proof -
  let ?ps = "sort_key snd cd"
  from assms show d: "distinct (map fst ?ps)"
    by (simp add: distinct_map)
  fix j assume j: "j < length cd"
  then have "?ps ! j \<in> set ?ps" by (intro nth_mem) simp
  then have "?ps ! j \<in> set cd" by simp
  then have "(fst (?ps ! j), snd (?ps ! j)) \<in> set cd" by simp
  with assms have "map_of cd (fst (?ps ! j)) = Some (snd (?ps ! j))"
    by (rule map_of_is_SomeI)
  with j show "map_of cd (map fst ?ps ! j) = Some (map snd ?ps ! j)" by simp
qed

lemma take_enumerate: "take m (enumerate n xs) = enumerate n (take m xs)"
  by (simp add: enumerate_eq_zip take_zip min_def)

text \<open>The loop of one user, run for its first \<open>m\<close> iterations only.\<close>

lemma allocate_prefix:
  assumes bc: "build_costs gamma items (h, []) = (h1, cd)"
  shows "\<exists>s. water_fill (map fst (sort_key snd cd))
               (take m (enumerate 0 (map fst (sort_key snd cd))))
               \<lparr>histogram = h1, cost_dict = cd, budget = 1, k = int (length cd), updates = []\<rparr> = Inr s
       \<and> 0 \<le> budget s
       \<and> int (length cd) - int m \<le> k s
       \<and> sum_list (map snd (updates s)) \<le> 1
       \<and> (\<forall>p\<in>set (updates s). 0 \<le> snd p)
       \<and> ((\<forall>x v. map_of h1 x = Some v \<longrightarrow> v \<le> gamma)
            \<longrightarrow> (\<forall>x v. map_of (histogram s) x = Some v \<longrightarrow> v \<le> gamma))"
proof -
  let ?ps = "sort_key snd cd"
  let ?si = "map fst ?ps"
  let ?cs = "map snd ?ps"
  let ?s0 = "\<lparr>histogram = h1, cost_dict = cd, budget = 1, k = int (length cd), updates = []\<rparr>"
  from build_costs_spec [OF _ _ bc] have
    P: "\<forall>x c. map_of cd x = Some c \<longrightarrow> 0 < c \<and> map_of h1 x = Some (gamma - c)"
    and dcd: "distinct (map fst cd)"
    by auto
  note sk = sort_key_facts [OF dcd]
  have f1: "distinct ?si" by (rule sk(1))
  have f2: "length ?cs = length ?si" by simp
  have f3: "sorted ?cs" by (rule sorted_sort_key)
  have f4: "\<forall>c\<in>set ?cs. 0 < c"
  proof
    fix c assume "c \<in> set ?cs"
    then obtain x where "(x, c) \<in> set cd" by auto
    with dcd have "map_of cd x = Some c" by (rule map_of_is_SomeI)
    with P show "0 < c" by blast
  qed
  have i1: "0 \<le> length ?si" by simp
  have i2: "k ?s0 = int (length ?si) - int 0" by simp
  have i3: "0 \<le> budget ?s0" by simp
  have i4: "\<forall>j. 0 \<le> j \<and> j < length ?si \<longrightarrow>
           map_of (cost_dict ?s0) (?si ! j) = Some (?cs ! j)
           \<and> map_of (histogram ?s0) (?si ! j) = Some (gamma - ?cs ! j)"
  proof (intro allI impI)
    fix j assume "0 \<le> j \<and> j < length ?si"
    then have j: "j < length cd" by simp
    from sk(2) [OF j] have c: "map_of cd (?si ! j) = Some (?cs ! j)" .
    with P have "map_of h1 (?si ! j) = Some (gamma - ?cs ! j)" by blast
    with c show "map_of (cost_dict ?s0) (?si ! j) = Some (?cs ! j)
           \<and> map_of (histogram ?s0) (?si ! j) = Some (gamma - ?cs ! j)" by simp
  qed
  from water_fill_inv [OF f1 f2 f3 f4 i1 i2 i3 i4, of m]
  show ?thesis
    by (simp add: take_enumerate)
qed

lemma replay_mono:
  assumes "\<forall>p\<in>set us. 0 \<le> snd p" "map_of h x = Some v"
  shows "\<exists>v'. map_of (replay us h) x = Some v' \<and> v \<le> v'"
  using assms
proof (induction us arbitrary: h v)
  case Nil
  then show ?case by simp
next
  case (Cons u us)
  obtain y a where u: "u = (y, a)" by (cases u)
  with Cons.prems have a: "0 \<le> a" by simp
  have "\<exists>w. map_of (hist_add y a h) x = Some w \<and> v \<le> w"
    using Cons.prems(2) a by (cases "x = y") (simp_all add: map_of_hist_add)
  then obtain w where
    w: "map_of (hist_add y a h) x = Some w" "v \<le> w"
    by (elim exE conjE)
  from Cons.prems(1) have "\<forall>p\<in>set us. 0 \<le> snd p" by simp
  from Cons.IH [OF this w(1)] w(2) u show ?case by auto
qed

lemma total_update:
  fixes h :: "'a dict"
  shows "map_of h x = Some w \<Longrightarrow> sum_list (map snd (AList.update x v h)) = sum_list (map snd h) - w + v"
  by (induction h) (auto split: if_splits)

lemma total_hist_add: "sum_list (map snd (hist_add x v h)) = sum_list (map snd h) + v"
proof (cases "map_of h x")
  case None
  then have "map_of (h @ [(x, 0)]) x = Some 0"
    by (simp add: map_add_def)
  from total_update [OF this, of v] None show ?thesis
    by (simp add: hist_add_def hist_get_def)
next
  case (Some w)
  from total_update [OF this, of "w + v"] Some show ?thesis
    by (simp add: hist_add_def hist_get_def)
qed

lemma total_replay: "sum_list (map snd (replay us h)) = sum_list (map snd h) + sum_list (map snd us)"
proof (induction us arbitrary: h)
  case Nil
  then show ?case by simp
next
  case (Cons u us)
  then show ?case by (cases u) (simp add: total_hist_add)
qed

lemma total_hist_get: "hist_get h x = (v, h1) \<Longrightarrow> sum_list (map snd h1) = sum_list (map snd h)"
  by (auto simp: hist_get_def split: option.splits)

lemma total_build_costs:
  "build_costs gamma items (h, cd) = (h', cd') \<Longrightarrow> sum_list (map snd h') = sum_list (map snd h)"
proof (induction items arbitrary: h cd)
  case Nil
  then show ?case by simp
next
  case (Cons item items)
  obtain v h1 where g: "hist_get h item = (v, h1)" by (cases "hist_get h item")
  obtain v2 h2 where g2: "hist_get h1 item = (v2, h2)" by (cases "hist_get h1 item")
  from total_hist_get [OF g] total_hist_get [OF g2]
  have t: "sum_list (map snd h1) = sum_list (map snd h)" "sum_list (map snd h2) = sum_list (map snd h)"
    by simp_all
  show ?case
  proof (cases "v < gamma")
    case True
    with Cons.prems g g2 have "build_costs gamma items (h2, AList.update item (gamma - v2) cd) = (h', cd')"
      by simp
    from Cons.IH [OF this] t show ?thesis by simp
  next
    case False
    with Cons.prems g have "build_costs gamma items (h1, cd) = (h', cd')"
      by simp
    from Cons.IH [OF this] t show ?thesis by simp
  qed
qed

lemma bounded_items_total: "\<exists>ys. bounded_items rnd mc items = Inr ys"
  using reservoir_sample_spec [of rnd items mc]
  by (auto simp: bounded_items_def)

lemma allocate_spec:
  "\<exists>s. allocate gamma items h = Inr s
      \<and> 0 \<le> budget s
      \<and> sum_list (map snd (updates s)) \<le> 1
      \<and> (\<forall>p\<in>set (updates s). 0 \<le> snd p)
      \<and> histogram s = replay (updates s) (fst (build_costs gamma items (h, [])))
      \<and> (0 \<le> gamma \<and> (\<forall>x v. map_of h x = Some v \<longrightarrow> v \<le> gamma)
            \<longrightarrow> (\<forall>x v. map_of (histogram s) x = Some v \<longrightarrow> v \<le> gamma))
      \<and> (distinct (map fst h) \<longrightarrow> distinct (map fst (histogram s)))
      \<and> (\<forall>x v. map_of h x = Some v \<longrightarrow> (\<exists>v'. map_of (histogram s) x = Some v' \<and> v \<le> v'))"
proof -
  obtain h1 cd where bc: "build_costs gamma items (h, []) = (h1, cd)"
    by (cases "build_costs gamma items (h, [])")
  let ?si = "map fst (sort_key snd cd)"
  let ?s0 = "\<lparr>histogram = h1, cost_dict = cd, budget = 1, k = int (length cd), updates = []\<rparr>"
  from build_costs_spec [OF _ _ bc] have
    keep: "\<forall>x v. map_of h x = Some v \<longrightarrow> map_of h1 x = Some v"
    and new: "\<forall>x v. map_of h1 x = Some v \<longrightarrow> map_of h x = Some v \<or> v = 0"
    and dist: "distinct (map fst h) \<longrightarrow> distinct (map fst h1)"
    by auto
  from allocate_prefix [OF bc, of "length cd"] obtain s where
    s: "water_fill ?si (take (length cd) (enumerate 0 ?si)) ?s0 = Inr s"
       "0 \<le> budget s"
       "sum_list (map snd (updates s)) \<le> 1"
       "\<forall>p\<in>set (updates s). 0 \<le> snd p"
       "(\<forall>x v. map_of h1 x = Some v \<longrightarrow> v \<le> gamma)
            \<longrightarrow> (\<forall>x v. map_of (histogram s) x = Some v \<longrightarrow> v \<le> gamma)"
    by (elim exE conjE)
  have wf: "water_fill ?si (enumerate 0 ?si) ?s0 = Inr s"
    using s(1) by simp
  then have al: "allocate gamma items h = Inr s"
    using bc by (simp add: allocate_def)
  from water_fill_replay [OF wf] have rp: "histogram s = replay (updates s) h1"
    by simp
  have cap: "0 \<le> gamma \<and> (\<forall>x v. map_of h x = Some v \<longrightarrow> v \<le> gamma)
            \<longrightarrow> (\<forall>x v. map_of (histogram s) x = Some v \<longrightarrow> v \<le> gamma)"
  proof
    assume a: "0 \<le> gamma \<and> (\<forall>x v. map_of h x = Some v \<longrightarrow> v \<le> gamma)"
    have "\<forall>x v. map_of h1 x = Some v \<longrightarrow> v \<le> gamma"
    proof (intro allI impI)
      fix x v assume "map_of h1 x = Some v"
      with new have "map_of h x = Some v \<or> v = 0" by blast
      with a show "v \<le> gamma" by auto
    qed
    with s(5) show "\<forall>x v. map_of (histogram s) x = Some v \<longrightarrow> v \<le> gamma" by blast
  qed
  have d: "distinct (map fst h) \<longrightarrow> distinct (map fst (histogram s))"
    using dist rp by (simp add: distinct_replay)
  have mono: "\<forall>x v. map_of h x = Some v \<longrightarrow> (\<exists>v'. map_of (histogram s) x = Some v' \<and> v \<le> v')"
  proof (intro allI impI)
    fix x v assume "map_of h x = Some v"
    with keep have "map_of h1 x = Some v" by blast
    from replay_mono [OF s(4) this] rp
    show "\<exists>v'. map_of (histogram s) x = Some v' \<and> v \<le> v'" by simp
  qed
  have rp': "histogram s = replay (updates s) (fst (build_costs gamma items (h, [])))"
    using rp bc by simp
  show ?thesis
    apply (rule exI [of _ s])
    using al s(2,3,4) rp' cap d mono by (intro conjI)
qed

lemma allocate_all_spec:
  "\<exists>h' new. allocate_all gamma mc rnd groups (h, trail) = Inr (h', trail @ new)
      \<and> length new = length groups
      \<and> (\<forall>us\<in>set new. sum_list (map snd us) \<le> 1 \<and> (\<forall>p\<in>set us. 0 \<le> snd p))
      \<and> (0 \<le> gamma \<and> (\<forall>x v. map_of h x = Some v \<longrightarrow> v \<le> gamma)
            \<longrightarrow> (\<forall>x v. map_of h' x = Some v \<longrightarrow> v \<le> gamma))
      \<and> (distinct (map fst h) \<longrightarrow> distinct (map fst h'))
      \<and> (\<forall>x v. map_of h x = Some v \<longrightarrow> (\<exists>v'. map_of h' x = Some v' \<and> v \<le> v'))"
proof (induction groups arbitrary: h trail)
  case Nil
  then show ?case by simp
next
  case (Cons g groups)
  obtain u grp where g: "g = (u, grp)" by (cases g)
  from bounded_items_total obtain items where
    items: "bounded_items (rnd u) mc grp = Inr items" by blast
  from allocate_spec [of gamma items h] obtain s where
    s: "allocate gamma items h = Inr s"
       "sum_list (map snd (updates s)) \<le> 1"
       "\<forall>p\<in>set (updates s). 0 \<le> snd p"
       "0 \<le> gamma \<and> (\<forall>x v. map_of h x = Some v \<longrightarrow> v \<le> gamma)
            \<longrightarrow> (\<forall>x v. map_of (histogram s) x = Some v \<longrightarrow> v \<le> gamma)"
       "distinct (map fst h) \<longrightarrow> distinct (map fst (histogram s))"
       "\<forall>x v. map_of h x = Some v \<longrightarrow> (\<exists>v'. map_of (histogram s) x = Some v' \<and> v \<le> v')"
    by (elim exE conjE)
  from Cons.IH [of "histogram s" "trail @ [updates s]"] obtain h' new where
    r: "allocate_all gamma mc rnd groups (histogram s, trail @ [updates s])
          = Inr (h', (trail @ [updates s]) @ new)"
       "length new = length groups"
       "\<forall>us\<in>set new. sum_list (map snd us) \<le> 1 \<and> (\<forall>p\<in>set us. 0 \<le> snd p)"
       "0 \<le> gamma \<and> (\<forall>x v. map_of (histogram s) x = Some v \<longrightarrow> v \<le> gamma)
            \<longrightarrow> (\<forall>x v. map_of h' x = Some v \<longrightarrow> v \<le> gamma)"
       "distinct (map fst (histogram s)) \<longrightarrow> distinct (map fst h')"
       "\<forall>x v. map_of (histogram s) x = Some v \<longrightarrow> (\<exists>v'. map_of h' x = Some v' \<and> v \<le> v')"
    by (elim exE conjE)
  have a: "allocate_all gamma mc rnd (g # groups) (h, trail) = Inr (h', trail @ (updates s # new))"
    using g items s(1) r(1) by simp
  have b: "length (updates s # new) = length (g # groups)"
    using r(2) by simp
  have c: "\<forall>us\<in>set (updates s # new). sum_list (map snd us) \<le> 1 \<and> (\<forall>p\<in>set us. 0 \<le> snd p)"
    using s(2,3) r(3) by simp
  have d: "0 \<le> gamma \<and> (\<forall>x v. map_of h x = Some v \<longrightarrow> v \<le> gamma)
            \<longrightarrow> (\<forall>x v. map_of h' x = Some v \<longrightarrow> v \<le> gamma)"
    using s(4) r(4) by blast
  have e: "distinct (map fst h) \<longrightarrow> distinct (map fst h')"
    using s(5) r(5) by blast
  have f: "\<forall>x v. map_of h x = Some v \<longrightarrow> (\<exists>v'. map_of h' x = Some v' \<and> v \<le> v')"
  proof (intro allI impI)
    fix x v assume "map_of h x = Some v"
    with s(6) obtain v1 where v1: "map_of (histogram s) x = Some v1" "v \<le> v1" by blast
    with r(6) obtain v2 where "map_of h' x = Some v2" "v1 \<le> v2" by blast
    with v1 show "\<exists>v'. map_of h' x = Some v' \<and> v \<le> v'" by auto
  qed
  show ?case
    apply (rule exI [of _ h'], rule exI [of _ "updates s # new"])
    using a b c d e f by (intro conjI)
qed

section \<open>Thresholds\<close>

lemma rho_term_valid:
  assumes "0 < delta" "delta \<le> 1" "0 < i"
  shows "\<exists>t. rho_term lambd delta i = Inr t"
proof -
  let ?b = "1 - delta"
  let ?p = "?b powr (1 / real i)"
  have b: "0 \<le> ?b" "?b < 1" using assms by simp_all
  have "?p < 1 powr (1 / real i)"
    using assms(3) b by (intro powr_less_mono2) simp_all
  then have p: "?p < 1" by simp
  then have "0 < 2 * (1 - ?p)" by simp
  then show ?thesis
    using b by (simp add: rho_term_def Let_def)
qed

lemma rho_list_valid:
  assumes "0 < delta" "delta \<le> 1" "\<forall>i\<in>set is. 0 < i"
  shows "\<exists>ts. rho_list lambd delta is = Inr ts \<and> length ts = length is"
  using assms(3)
proof (induction "is")
  case Nil
  then show ?case by simp
next
  case (Cons i "is")
  from Cons.prems have "0 < i" by simp
  from rho_term_valid [OF assms(1,2) this] obtain t where
    t: "rho_term lambd delta i = Inr t" by blast
  from Cons have "\<exists>ts. rho_list lambd delta is = Inr ts \<and> length ts = length is" by simp
  then obtain ts where "rho_list lambd delta is = Inr ts" "length ts = length is" by blast
  with t show ?case by simp
qed

lemma rho_term_one:
  "rho_term lambd delta (Suc 0) =
     (if delta = 0 then Inl ZeroDivisionError
      else if delta < 0 then Inl ValueError
      else Inr (1 + lambd * ln (1 / (2 * delta))))"
proof -
  have p: "(if 1 - delta < 0 then 1 - delta else (1 - delta) powr 1) = 1 - delta"
    by simp
  show ?thesis
    unfolding rho_term_def Let_def
    by (simp add: p divide_le_0_iff del: powr_one')
qed

lemma thresholds_fails_iff:
  "(\<exists>e. thresholds eps delta max_contrib = Inl e)
     \<longleftrightarrow> eps = 0 \<or> max_contrib < 1 \<or> delta \<le> 0 \<or> (1 < delta \<and> 2 \<le> max_contrib)"
proof (cases "eps = 0 \<or> max_contrib < 1")
  case True
  then show ?thesis
  proof
    assume "eps = 0"
    then show ?thesis by (simp add: thresholds_def Let_def)
  next
    assume "max_contrib < 1"
    then show ?thesis by (simp add: thresholds_def py_max_def Let_def)
  qed
next
  case False
  then have eps: "eps \<noteq> 0" and mc: "1 \<le> max_contrib" by simp_all
  let ?is = "[1 ..< nat (max_contrib + 1)]"
  have split: "?is = Suc 0 # [Suc (Suc 0) ..< nat (max_contrib + 1)]"
    using mc by (simp add: upt_conv_Cons)
  show ?thesis
  proof (cases "delta \<le> 0")
    case True
    then show ?thesis
      using eps split by (auto simp: thresholds_def rho_term_one Let_def)
  next
    case pos: False
    show ?thesis
    proof (cases "delta \<le> 1")
      case True
      have "\<forall>i\<in>set ?is. 0 < i" by simp
      from rho_list_valid [OF _ True this, of "1 / eps"] pos obtain ts where
        ts: "rho_list (1 / eps) delta ?is = Inr ts" "length ts = length ?is" by auto
      from ts(2) split obtain t ts' where "ts = t # ts'" by (cases ts) simp_all
      with ts(1) eps True pos mc show ?thesis
        by (simp add: thresholds_def py_max_def Let_def)
    next
      case big: False
      show ?thesis
      proof (cases "2 \<le> max_contrib")
        case True
        then have split2: "[Suc (Suc 0) ..< nat (max_contrib + 1)]
            = Suc (Suc 0) # [Suc (Suc (Suc 0)) ..< nat (max_contrib + 1)]"
          by (simp add: upt_conv_Cons)
        have "rho_term (1 / eps) delta (Suc (Suc 0)) = Inl TypeError"
          using big by (simp add: rho_term_def)
        with eps big True split split2 show ?thesis
          by (simp add: thresholds_def rho_term_one Let_def)
      next
        case False
        with mc have "max_contrib = 1" by simp
        with eps big pos show ?thesis
          by (simp add: thresholds_def rho_term_one py_max_def Let_def upt_conv_Cons)
      qed
    qed
  qed
qed

lemma thresholds_error_kind:
  "thresholds eps delta max_contrib = Inl e \<longleftrightarrow>
       e = ZeroDivisionError \<and> (eps = 0 \<or> 1 \<le> max_contrib \<and> delta = 0)
     \<or> e = ValueError \<and> eps \<noteq> 0 \<and> (max_contrib < 1 \<or> delta < 0)
     \<or> e = TypeError \<and> eps \<noteq> 0 \<and> 2 \<le> max_contrib \<and> 1 < delta"
proof (cases "eps = 0")
  case True
  then show ?thesis by (auto simp: thresholds_def Let_def)
next
  case eps: False
  show ?thesis
  proof (cases "max_contrib < 1")
    case True
    with eps show ?thesis by (auto simp: thresholds_def py_max_def Let_def)
  next
    case False
    then have mc: "1 \<le> max_contrib" by simp
    have split: "[1 ..< nat (max_contrib + 1)] = Suc 0 # [Suc (Suc 0) ..< nat (max_contrib + 1)]"
      using mc by (simp add: upt_conv_Cons)
    show ?thesis
    proof (cases "delta \<le> 0")
      case True
      with eps mc split show ?thesis
        by (auto simp: thresholds_def rho_term_one Let_def)
    next
      case pos: False
      show ?thesis
      proof (cases "1 < delta \<and> 2 \<le> max_contrib")
        case True
        then have m2: "2 \<le> max_contrib" and big: "1 < delta" by simp_all
        from m2 have split2: "[Suc (Suc 0) ..< nat (max_contrib + 1)]
            = Suc (Suc 0) # [Suc (Suc (Suc 0)) ..< nat (max_contrib + 1)]"
          by (simp add: upt_conv_Cons)
        have "rho_term (1 / eps) delta (Suc (Suc 0)) = Inl TypeError"
          using big by (simp add: rho_term_def)
        with eps mc pos True split split2 show ?thesis
          by (auto simp: thresholds_def rho_term_one Let_def)
      next
        case False
        with eps mc pos have "\<not> (\<exists>e. thresholds eps delta max_contrib = Inl e)"
          by (simp add: thresholds_fails_iff)
        with eps mc pos False show ?thesis by auto
      qed
    qed
  qed
qed

lemma fold_max_ge: "x \<le> fold max ys (x::real)"
proof (induction ys arbitrary: x)
  case Nil
  then show ?case by simp
next
  case (Cons y ys)
  have "x \<le> max y x" by simp
  also have "\<dots> \<le> fold max ys (max y x)" by (rule Cons.IH)
  finally show ?case by simp
qed

lemma thresholds_valid:
  assumes "0 < eps" "0 < delta" "delta < 1" "1 \<le> max_contrib"
  shows "\<exists>rho gamma. thresholds eps delta max_contrib = Inr (1 / eps, rho, gamma) \<and> 1 < gamma"
proof -
  let ?l = "1 / eps"
  let ?is = "[1 ..< nat (max_contrib + 1)]"
  let ?t1 = "1 + ?l * ln (1 / (2 * delta))"
  have split: "?is = Suc 0 # [Suc (Suc 0) ..< nat (max_contrib + 1)]"
    using assms(4) by (simp add: upt_conv_Cons)
  have "\<forall>i\<in>set [Suc (Suc 0) ..< nat (max_contrib + 1)]. 0 < i" by simp
  from rho_list_valid [OF assms(2) _ this, of ?l] assms(3) obtain ts where
    ts: "rho_list ?l delta [Suc (Suc 0) ..< nat (max_contrib + 1)] = Inr ts" by auto
  have t1: "rho_term ?l delta (Suc 0) = Inr ?t1"
    using assms(2) by (simp add: rho_term_one)
  have th: "thresholds eps delta max_contrib
      = Inr (?l, fold max ts ?t1, fold max ts ?t1 + 3 * ?l)"
    using assms(1) split ts t1 by (simp add: thresholds_def py_max_def Let_def)
  have "ln (2 * delta) \<le> 2 * delta - 1"
    using assms(2) by (intro ln_le_minus_one) simp
  moreover have "ln (1 / (2 * delta)) = - ln (2 * delta)"
    using assms(2) by (simp add: ln_div)
  ultimately have "- 1 < ln (1 / (2 * delta))"
    using assms(3) by simp
  then have "0 < 3 + ln (1 / (2 * delta))" by simp
  moreover have "0 < ?l" using assms(1) by simp
  ultimately have "0 < ?l * (3 + ln (1 / (2 * delta)))"
    by (rule mult_pos_pos [rotated])
  then have "1 < ?t1 + 3 * ?l" by (simp add: algebra_simps)
  also have "\<dots> \<le> fold max ts ?t1 + 3 * ?l"
    using fold_max_ge [of ?t1 ts] by simp
  finally show ?thesis using th by simp
qed

lemma thresholds_example: "thresholds (1/2) (3/4) 2 = Inr (2, 1/2, 13/2)"
proof -
  have t1: "rho_term 2 (3/4) (Suc 0) = Inr (1 + 2 * ln (2/3))"
    by (simp add: rho_term_one)
  have "(1/4::real) powr (1/2) = sqrt (1/4)"
    by (rule powr_half_sqrt) simp
  also have "\<dots> = 1/2"
    by (simp add: real_sqrt_divide)
  finally have half: "(1/4::real) powr (1/2) = 1/2" .
  have t2: "rho_term 2 (3/4) (Suc (Suc 0)) = Inr (1/2)"
    by (simp add: rho_term_def half)
  have "ln (2/3::real) \<le> 2/3 - 1"
    by (rule ln_le_minus_one) simp
  then have le: "1 + 2 * ln (2/3::real) \<le> 1/2" by simp
  show ?thesis
    using le by (simp add: thresholds_def upt_conv_Cons t1 t2 py_max_def max_def Let_def)
qed

lemma thresholds_negative_eps: "thresholds (-6) (1/2) 1 = Inr (-1/6, 1, 1/2)"
  by (simp add: thresholds_def rho_term_one py_max_def Let_def upt_conv_Cons)

lemma thresholds_example2: "thresholds 15 (1/2) 2 = Inr (1/15, 1, 6/5)"
proof -
  let ?r = "sqrt (1/2) :: real"
  have t1: "rho_term (1/15) (1/2) (Suc 0) = Inr 1"
    by (simp add: rho_term_one)
  have half: "(1/2::real) powr (1/2) = ?r"
    by (rule powr_half_sqrt) simp
  have "?r \<le> 16/17"
    by (rule real_le_lsqrt) (simp_all add: power2_eq_square)
  then have d: "2/17 \<le> 2 * (1 - ?r)" by simp
  then have dpos: "0 < 2 * (1 - ?r)" by simp
  have "1 / (2 * (1 - ?r)) \<le> 1 / (2/17)"
    using d by (intro divide_left_mono) simp_all
  then have y: "1 / (2 * (1 - ?r)) \<le> 17/2" by simp
  have ypos: "0 < 1 / (2 * (1 - ?r))" using dpos by simp
  have "ln (1 / (2 * (1 - ?r))) \<le> 1 / (2 * (1 - ?r)) - 1"
    using ypos by (rule ln_le_minus_one)
  with y have l: "ln (1 / (2 * (1 - ?r))) \<le> 15/2" by simp
  have t2: "rho_term (1/15) (1/2) (Suc (Suc 0)) = Inr (1/2 + 1/15 * ln (1 / (2 * (1 - ?r))))"
    using dpos ypos by (simp add: rho_term_def half Let_def)
  have le: "1/2 + 1/15 * ln (1 / (2 * (1 - ?r))) \<le> 1"
    using l by simp
  show ?thesis
    using le by (simp add: thresholds_def upt_conv_Cons t1 t2 py_max_def max_def Let_def)
qed

section \<open>Release\<close>

lemma release_loop_spec:
  assumes "distinct ks" "\<forall>x\<in>set ks. map_of h x \<noteq> None"
  shows "snd (release_loop rho lap (enumerate n ks) (h, items)) =
     items @ map snd (filter (\<lambda>(m, x). rho < the (map_of h x) + lap m) (enumerate n ks))"
  using assms
proof (induction ks arbitrary: n h items)
  case Nil
  then show ?case by simp
next
  case (Cons x ks)
  from Cons.prems obtain w where w: "map_of h x = Some w" by auto
  let ?h1 = "hist_add x (lap n) h"
  have m1: "\<And>y. map_of ?h1 y = (if y = x then Some (w + lap n) else map_of h y)"
    using w by (simp add: map_of_hist_add)
  have g: "hist_get ?h1 x = (w + lap n, ?h1)"
    using m1 by (simp add: hist_get_present)
  have d: "distinct ks" and notin: "x \<notin> set ks"
    using Cons.prems(1) by simp_all
  have pres: "\<forall>y\<in>set ks. map_of ?h1 y \<noteq> None"
    using Cons.prems(2) m1 by simp
  have same: "filter (\<lambda>(m, y). rho < the (map_of ?h1 y) + lap m) (enumerate (Suc n) ks)
            = filter (\<lambda>(m, y). rho < the (map_of h y) + lap m) (enumerate (Suc n) ks)"
  proof (rule filter_cong [OF refl])
    fix p assume "p \<in> set (enumerate (Suc n) ks)"
    then have "snd p \<in> set ks"
      by (metis in_set_zipE enumerate_eq_zip prod.collapse)
    with notin have "snd p \<noteq> x" by auto
    then show "(case p of (m, y) \<Rightarrow> rho < the (map_of ?h1 y) + lap m)
             = (case p of (m, y) \<Rightarrow> rho < the (map_of h y) + lap m)"
      by (cases p) (simp add: m1)
  qed
  show ?case
  proof (cases "rho < w + lap n")
    case True
    have "snd (release_loop rho lap (enumerate n (x # ks)) (h, items))
        = snd (release_loop rho lap (enumerate (Suc n) ks) (?h1, items @ [x]))"
      using g True by (simp add: Let_def)
    also have "\<dots> = (items @ [x]) @ map snd
        (filter (\<lambda>(m, y). rho < the (map_of ?h1 y) + lap m) (enumerate (Suc n) ks))"
      by (rule Cons.IH [OF d pres])
    finally show ?thesis using True w same by simp
  next
    case False
    have "snd (release_loop rho lap (enumerate n (x # ks)) (h, items))
        = snd (release_loop rho lap (enumerate (Suc n) ks) (?h1, items))"
      using g False by (simp add: Let_def)
    also have "\<dots> = items @ map snd
        (filter (\<lambda>(m, y). rho < the (map_of ?h1 y) + lap m) (enumerate (Suc n) ks))"
      by (rule Cons.IH [OF d pres])
    finally show ?thesis using False w same by simp
  qed
qed

lemma release_iff:
  assumes d: "distinct (map fst h)"
  shows "x \<in> set (release rho lap h)
     \<longleftrightarrow> (\<exists>n<length h. fst (h ! n) = x \<and> rho < snd (h ! n) + lap n)"
proof -
  have pres: "\<forall>x\<in>set (map fst h). map_of h x \<noteq> None"
    by (simp add: map_of_eq_None_iff)
  have rel: "release rho lap h =
      map snd (filter (\<lambda>(m, x). rho < the (map_of h x) + lap m) (enumerate 0 (map fst h)))"
    using release_loop_spec [OF d pres, of rho lap 0 "[]"] by (simp add: release_def)
  have look: "\<And>n. n < length h \<Longrightarrow> map_of h (fst (h ! n)) = Some (snd (h ! n))"
    using d by (intro map_of_is_SomeI) simp_all
  show ?thesis
  proof
    assume "x \<in> set (release rho lap h)"
    then obtain m where m: "(m, x) \<in> set (enumerate 0 (map fst h))"
      "rho < the (map_of h x) + lap m"
      unfolding rel by auto
    from m(1) have mm: "m < length h" "fst (h ! m) = x"
      by (auto simp: in_set_enumerate_eq)
    with look [OF mm(1)] m(2) show "\<exists>n<length h. fst (h ! n) = x \<and> rho < snd (h ! n) + lap n"
      by auto
  next
    assume "\<exists>n<length h. fst (h ! n) = x \<and> rho < snd (h ! n) + lap n"
    then obtain n where n: "n < length h" "fst (h ! n) = x" "rho < snd (h ! n) + lap n"
      by blast
    then have "(n, x) \<in> set (enumerate 0 (map fst h))"
      by (auto simp: in_set_enumerate_eq)
    moreover from look [OF n(1)] n(2,3) have "rho < the (map_of h x) + lap n" by simp
    ultimately show "x \<in> set (release rho lap h)"
      unfolding rel by force
  qed
qed

lemma allocate_all_distinct:
  "allocate_all gamma mc rnd groups ([], []) = Inr (h, trail) \<Longrightarrow> distinct (map fst h)"
  using allocate_all_spec [of gamma mc rnd groups "[]" "[]"] by auto

lemmas eval_defs = allocate_def hist_get_def hist_add_def py_range_def and_then_def
  bounded_items_def reservoir_sample_def Let_def upt_conv_Cons

lemmas frame_defs = policy_laplace_def policy_histogram_def visited_def groupby_def
  sort_values_def release_def run_dpsu_def preprocess_df_from_query_def merge_on_key_def

lemma in_set_map_of: "distinct (map fst h) \<Longrightarrow> (x, v) \<in> set h \<Longrightarrow> map_of h x = Some v"
  by (rule map_of_is_SomeI)

section \<open>Claims about the allocation loop\<close>

text \<open>
  C1. For every user processed by \<^verbatim>\<open>policy_laplace\<close>, the sum of all histogram
  increments applied during the allocation step of that user, over both branches of the
  water-filling loop, is at most 1. The step of one user never fails, the histogram it
  leaves is the one it found (with the keys it read) after exactly the recorded updates,
  the recorded amounts sum to at most 1, and the total weight of the histogram grows by
  that sum. The same bound holds for every user of a run of the loop over the groups,
  from any histogram.
\<close>

theorem budget_conservation:
  "(\<exists>s. allocate gamma items h = Inr s
        \<and> histogram s = replay (updates s) (fst (build_costs gamma items (h, [])))
        \<and> sum_list (map snd (histogram s)) = sum_list (map snd h) + sum_list (map snd (updates s))
        \<and> sum_list (map snd (updates s)) \<le> 1)
   \<and> (\<exists>h' trail. allocate_all gamma max_contrib randint groups (h, []) = Inr (h', trail)
        \<and> length trail = length groups
        \<and> (\<forall>us\<in>set trail. sum_list (map snd us) \<le> 1))"
proof
  from allocate_spec [of gamma items h] obtain s where
    s: "allocate gamma items h = Inr s"
       "histogram s = replay (updates s) (fst (build_costs gamma items (h, [])))"
       "sum_list (map snd (updates s)) \<le> 1"
    by (elim exE conjE)
  obtain h1 cd where bc: "build_costs gamma items (h, []) = (h1, cd)"
    by (cases "build_costs gamma items (h, [])")
  from total_build_costs [OF bc] s(2) bc
  have "sum_list (map snd (histogram s)) = sum_list (map snd h) + sum_list (map snd (updates s))"
    by (simp add: total_replay)
  with s
  show "\<exists>s. allocate gamma items h = Inr s
        \<and> histogram s = replay (updates s) (fst (build_costs gamma items (h, [])))
        \<and> sum_list (map snd (histogram s)) = sum_list (map snd h) + sum_list (map snd (updates s))
        \<and> sum_list (map snd (updates s)) \<le> 1"
    by simp
  from allocate_all_spec [of gamma max_contrib randint groups h "[]"]
  obtain h' new where
    r: "allocate_all gamma max_contrib randint groups (h, []) = Inr (h', [] @ new)"
       "length new = length groups"
       "\<forall>us\<in>set new. sum_list (map snd us) \<le> 1 \<and> (\<forall>p\<in>set us. 0 \<le> snd p)"
    by (elim exE conjE)
  show "\<exists>h' trail. allocate_all gamma max_contrib randint groups (h, []) = Inr (h', trail)
        \<and> length trail = length groups
        \<and> (\<forall>us\<in>set trail. sum_list (map snd us) \<le> 1)"
    apply (rule exI [of _ h'], rule exI [of _ new])
    using r by simp
qed

theorem budget_conservation_witness:
  "allocate_all (6/5) 2 (\<lambda>u i. 0) [(1::nat, [''A'']), (2, [''A'', ''B''])] ([], [])
     = Inr ([(''A'', 6/5), (''B'', 0)], [[(''A'', 1)], [(''A'', 1/5), (''B'', 0)]])
   \<and> sum_list (map snd [(''A'', 1::real)]) \<le> 1
   \<and> sum_list (map snd [(''A'', 1/5), (''B'', 0::real)]) \<le> 1"
  using budget_conservation [of "6/5" "[''A'']" "[]" 2 "\<lambda>u i. 0" "[(1::nat, [''A'']), (2, [''A'', ''B''])]"]
  by (simp add: eval_defs)

text \<open>
  C3. Histogram weights never decrease during a run: every update that the allocation
  loop applies to a histogram entry, for every user and every item, adds a non-negative
  amount, and every weight of the histogram the loop starts from is still present, not
  smaller, in the histogram it ends with.
\<close>

theorem histogram_monotone:
  "\<exists>h' trail. allocate_all gamma max_contrib randint groups (h, []) = Inr (h', trail)
      \<and> (\<forall>us\<in>set trail. \<forall>(x, v)\<in>set us. 0 \<le> v)
      \<and> (\<forall>x v. map_of h x = Some v \<longrightarrow> (\<exists>v'. map_of h' x = Some v' \<and> v \<le> v'))"
proof -
  from allocate_all_spec [of gamma max_contrib randint groups h "[]"]
  obtain h' new where
    r: "allocate_all gamma max_contrib randint groups (h, []) = Inr (h', [] @ new)"
       "\<forall>us\<in>set new. sum_list (map snd us) \<le> 1 \<and> (\<forall>p\<in>set us. 0 \<le> snd p)"
       "\<forall>x v. map_of h x = Some v \<longrightarrow> (\<exists>v'. map_of h' x = Some v' \<and> v \<le> v')"
    by (elim exE conjE)
  have nn: "\<forall>us\<in>set new. \<forall>(x, v)\<in>set us. 0 \<le> v"
    using r(2) by fastforce
  show ?thesis
    apply (rule exI [of _ h'], rule exI [of _ new])
    using r(1,3) nn by simp
qed

theorem histogram_monotone_witness:
  "allocate_all (6/5) 2 (\<lambda>u i. 0) [(2::nat, [''A'', ''B''])] ([(''A'', 1)], [])
     = Inr ([(''A'', 6/5), (''B'', 0)], [[(''A'', 1/5), (''B'', 0)]])
   \<and> (0::real) \<le> 1/5 \<and> (0::real) \<le> 0
   \<and> map_of [(''A'', 1::real)] ''A'' = Some 1
   \<and> map_of [(''A'', 6/5), (''B'', 0::real)] ''A'' = Some (6/5) \<and> (1::real) \<le> 6/5"
  using histogram_monotone [of "6/5" 2 "\<lambda>u i. 0" "[(2::nat, [''A'', ''B''])]" "[(''A'', 1)]"]
  by (simp add: eval_defs)

text \<open>
  C4. Before the noise is added every weight of the histogram is at most gamma. After any
  number of users processed by the allocation loop from the empty histogram no entry
  exceeds gamma, for every non-negative gamma (an entry is created with weight 0); and
  for every valid parameter triple the thresholds are computed, gamma is greater than 1,
  and no entry of the histogram that \<^verbatim>\<open>policy_laplace\<close> builds exceeds gamma, whatever
  the order in which the sort leaves rows of equal hash.
\<close>

theorem saturation_cap:
  fixes groups :: "('u \<times> 'a list) list" and df :: "('w::linorder \<times> 'a) list"
    and tie :: "nat \<Rightarrow> nat"
  shows "(0 \<le> gamma \<longrightarrow>
            (\<exists>h trail. allocate_all gamma max_contrib randint (take n groups) ([], []) = Inr (h, trail)
               \<and> (\<forall>(x, v)\<in>set h. v \<le> gamma)))
       \<and> (0 < eps \<and> 0 < delta \<and> delta < 1 \<and> 1 \<le> max_contrib \<longrightarrow>
            (\<exists>rho g h trail. thresholds eps delta max_contrib = Inr (1 / eps, rho, g) \<and> 1 < g
               \<and> policy_histogram df eps delta max_contrib tie hash rnd = Inr (h, trail)
               \<and> (\<forall>(x, v)\<in>set h. v \<le> g)))"
proof -
  have cap: "\<exists>h trail. allocate_all g mc r gs ([], []) = Inr (h, trail)
               \<and> (\<forall>(x, v)\<in>set h. v \<le> g)"
    if g: "0 \<le> g" for g mc and r :: "'v \<Rightarrow> nat \<Rightarrow> nat" and gs :: "('v \<times> 'a list) list"
  proof -
    let ?e = "[] :: 'a dict"
    from allocate_all_spec [of g mc r gs ?e "[]"]
    obtain h new where
      r: "allocate_all g mc r gs (?e, []) = Inr (h, [] @ new)"
         "0 \<le> g \<and> (\<forall>x v. map_of ?e x = Some v \<longrightarrow> v \<le> g)
            \<longrightarrow> (\<forall>x v. map_of h x = Some v \<longrightarrow> v \<le> g)"
         "distinct (map fst ?e) \<longrightarrow> distinct (map fst h)"
      by (elim exE conjE)
    from r(3) have d: "distinct (map fst h)" by simp
    from r(2) g have b: "\<forall>x v. map_of h x = Some v \<longrightarrow> v \<le> g" by simp
    have "\<forall>(x, v)\<in>set h. v \<le> g"
      using b in_set_map_of [OF d] by blast
    with r(1) show ?thesis by simp
  qed
  have second: "\<exists>rho g h trail. thresholds eps delta max_contrib = Inr (1 / eps, rho, g) \<and> 1 < g
               \<and> policy_histogram df eps delta max_contrib tie hash rnd = Inr (h, trail)
               \<and> (\<forall>(x, v)\<in>set h. v \<le> g)"
    if v: "0 < eps \<and> 0 < delta \<and> delta < 1 \<and> 1 \<le> max_contrib"
  proof -
    from v thresholds_valid [of eps delta max_contrib] obtain rho g where
      t: "thresholds eps delta max_contrib = Inr (1 / eps, rho, g)" "1 < g"
      by auto
    from t(2) have "0 \<le> g" by simp
    from cap [OF this, of max_contrib rnd "visited tie hash df"] obtain h trail where
      h: "allocate_all g max_contrib rnd (visited tie hash df) ([], []) = Inr (h, trail)"
         "\<forall>(x, v)\<in>set h. v \<le> g"
      by (elim exE conjE)
    from t(1) h(1) have "policy_histogram df eps delta max_contrib tie hash rnd = Inr (h, trail)"
      by (simp add: policy_histogram_def)
    with t h(2) show ?thesis by blast
  qed
  from cap [of gamma max_contrib randint "take n groups"] second show ?thesis by blast
qed

theorem saturation_cap_witness:
  "(0::real) \<le> 6/5
   \<and> allocate_all (6/5) 2 (\<lambda>u i. 0) (take 2 [(1::nat, [''A'']), (2, [''A'', ''B'']), (3, [''B''])]) ([], [])
     = Inr ([(''A'', 6/5), (''B'', 0)], [[(''A'', 1)], [(''A'', 1/5), (''B'', 0)]])
   \<and> (6/5::real) \<le> 6/5 \<and> (0::real) \<le> 6/5
   \<and> (0::real) < 1/2 \<and> (0::real) < 3/4 \<and> (3/4::real) < 1 \<and> (1::int) \<le> 2
   \<and> thresholds (1/2) (3/4) 2 = Inr (2, 1/2, 13/2)
   \<and> policy_histogram [(1::nat, ''A''), (1, ''B''), (2, ''A'')] (1/2) (3/4) 2 (\<lambda>i. 0) (\<lambda>u. int u) (\<lambda>u i. 0)
     = Inr ([(''A'', 3/2), (''B'', 1/2)], [[(''A'', 1/2), (''B'', 1/2)], [(''A'', 1)]])
   \<and> (3/2::real) \<le> 13/2 \<and> (1/2::real) \<le> 13/2"
  using saturation_cap [of "6/5" 2 "\<lambda>u i. 0" 2 "[(1::nat, [''A'']), (2, [''A'', ''B'']), (3, [''B''])]"
      "1/2" "3/4" "[(1::nat, ''A''), (1, ''B''), (2, ''A'')]" "\<lambda>i. 0" "\<lambda>u. int u" "\<lambda>u i. 0"]
  by (simp add: frame_defs thresholds_example eval_defs)

text \<open>
  C10. In the water-filling loop of a user the budget never becomes negative and the
  division \<^verbatim>\<open>budget / k\<close> is never a division by zero. The loop over the first \<open>m\<close>
  sorted candidates, \<open>m\<close> less than their number, ends in the state in which iteration
  \<open>m\<close> starts, or in the state in which an earlier iteration left the loop; in both
  \<open>k\<close> is at least 1 and the budget is not negative, so every execution of the else branch
  divides by a positive \<open>k\<close>. The whole step returns without an error, with a budget
  that is not negative (the budget only decreases).
\<close>

theorem no_division_by_zero:
  assumes "build_costs gamma items (h, []) = (h1, cd)" and "m < length cd"
  shows "(\<exists>s. water_fill (map fst (sort_key snd cd))
               (take m (enumerate 0 (map fst (sort_key snd cd))))
               \<lparr>histogram = h1, cost_dict = cd, budget = 1, k = int (length cd), updates = []\<rparr> = Inr s
            \<and> 1 \<le> k s \<and> 0 \<le> budget s)
       \<and> (\<exists>s. allocate gamma items h = Inr s \<and> 0 \<le> budget s)"
proof
  from allocate_prefix [OF assms(1), of m] obtain s where
    s: "water_fill (map fst (sort_key snd cd))
               (take m (enumerate 0 (map fst (sort_key snd cd))))
               \<lparr>histogram = h1, cost_dict = cd, budget = 1, k = int (length cd), updates = []\<rparr> = Inr s"
       "0 \<le> budget s"
       "int (length cd) - int m \<le> k s"
    by (elim exE conjE)
  from s(3) assms(2) have "1 \<le> k s" by simp
  with s(1,2)
  show "\<exists>s. water_fill (map fst (sort_key snd cd))
               (take m (enumerate 0 (map fst (sort_key snd cd))))
               \<lparr>histogram = h1, cost_dict = cd, budget = 1, k = int (length cd), updates = []\<rparr> = Inr s
            \<and> 1 \<le> k s \<and> 0 \<le> budget s"
    by simp
  from allocate_spec [of gamma items h]
  show "\<exists>s. allocate gamma items h = Inr s \<and> 0 \<le> budget s"
    by (elim exE conjE) (intro exI conjI)
qed

theorem no_division_by_zero_witness:
  "build_costs (6/5) [''A'', ''B''] ([(''A'', 1)], []) = ([(''A'', 1), (''B'', 0)], [(''A'', 1/5), (''B'', 6/5)])
   \<and> (1::nat) < length [(''A'', 1/5), (''B'', 6/5::real)]
   \<and> water_fill [''A'', ''B''] (take 1 (enumerate 0 [''A'', ''B'']))
        \<lparr>histogram = [(''A'', 1), (''B'', 0)], cost_dict = [(''A'', 1/5), (''B'', 6/5)],
         budget = 1, k = 2, updates = []\<rparr>
      = Inr \<lparr>histogram = [(''A'', 6/5), (''B'', 0)], cost_dict = [(''A'', 0), (''B'', 6/5)],
          budget = 3/5, k = 1, updates = [(''A'', 1/5), (''B'', 0)]\<rparr>
   \<and> allocate (6/5) [''A'', ''B''] [(''A'', 1)]
      = Inr \<lparr>histogram = [(''A'', 6/5), (''B'', 0)], cost_dict = [(''A'', 0), (''B'', 6/5)],
          budget = 3/5, k = 1, updates = [(''A'', 1/5), (''B'', 0)]\<rparr>"
  using no_division_by_zero [of "6/5" "[''A'', ''B'']" "[(''A'', 1)]" "[(''A'', 1), (''B'', 0)]"
      "[(''A'', 1/5), (''B'', 6/5)]" 1]
  by (simp add: eval_defs)

section \<open>Claims about policy\_laplace and run\_dpsu\<close>

lemma policy_laplace_fails_iff:
  "policy_laplace df eps delta max_contrib tie hash randint laplace = Inl e
     \<longleftrightarrow> thresholds eps delta max_contrib = Inl e"
proof (cases "thresholds eps delta max_contrib")
  case (Inl e')
  then show ?thesis by (simp add: policy_laplace_def)
next
  case (Inr t)
  obtain lambd rho gamma where t: "t = (lambd, rho, gamma)" by (cases t)
  from allocate_all_spec [of gamma max_contrib randint "visited tie hash df" "[]" "[]"]
  obtain h new where
    "allocate_all gamma max_contrib randint (visited tie hash df) ([], []) = Inr (h, [] @ new)"
    by (elim exE conjE)
  with Inr t show ?thesis by (simp add: policy_laplace_def Let_def)
qed

text \<open>
  C5. In the release step an item is included in the released list if and only if it is a
  key of the histogram and its accumulated weight plus the noise drawn for it is strictly
  greater than rho. The \<open>n\<close>-th key of the histogram receives the \<open>n\<close>-th draw. An item
  whose noisy weight equals rho is not released, and an item that is not a key of the
  histogram is never released.
\<close>

theorem threshold_release:
  assumes "allocate_all gamma max_contrib randint groups ([], []) = Inr (h, trail)"
  shows "x \<in> set (release rho laplace h)
     \<longleftrightarrow> (\<exists>n<length h. fst (h ! n) = x \<and> rho < snd (h ! n) + laplace n)"
  using release_iff [OF allocate_all_distinct [OF assms]] .

theorem threshold_release_witness:
  "allocate_all (13/2) 2 (\<lambda>u i. 0) [(1::nat, [''A'', ''B''])] ([], [])
     = Inr ([(''A'', 1/2), (''B'', 1/2)], [[(''A'', 1/2), (''B'', 1/2)]])
   \<and> release (1/2) (\<lambda>n. if n = 0 then 1 else 0) [(''A'', 1/2), (''B'', 1/2)] = [''A'']
   \<and> ''B'' \<notin> set (release (1/2) (\<lambda>n. if n = 0 then 1 else 0) [(''A'', 1/2), (''B'', 1/2)])"
proof -
  have ex: "allocate_all (13/2) 2 (\<lambda>u i. 0) [(1::nat, [''A'', ''B''])] ([], [])
     = Inr ([(''A'', 1/2), (''B'', 1/2)], [[(''A'', 1/2), (''B'', 1/2)]])"
    by (simp add: eval_defs)
  from threshold_release [OF ex, of "''B''" "1/2" "\<lambda>n. if n = 0 then 1 else 0"] ex
  show ?thesis
    by (simp add: release_def hist_add_def hist_get_def)
qed

lemma visited_order: "map fst (visited tie hash df) = sort (remdups (map fst df))"
proof -
  let ?df = "sort_values tie (map (\<lambda>(u, item). (u, item, hash u)) df)"
  have "map fst (map (\<lambda>(u, item). (u, item, hash u)) df) = map fst df"
    by (induction df) auto
  then have "fst ` set (map (\<lambda>(u, item). (u, item, hash u)) df) = fst ` set df"
    by (metis set_map)
  then have "set (map fst ?df) = set (map fst df)"
    by (simp add: set_sort_values)
  then have "sort (remdups (map fst ?df)) = sort (remdups (map fst df))"
    by (simp add: sorted_list_of_set_sort_remdups [symmetric])
  then show ?thesis
    by (simp add: visited_def groupby_def comp_def)
qed

text \<open>
  C7 (the code differs). The frame is sorted by the hash of the user identifier, but the
  loop then iterates over \<^verbatim>\<open>df.groupby(key_col)\<close>, which yields the groups in ascending
  order of the key itself. Whatever the hash and the order of ties, the users are visited
  in the order of their identifiers (lemma \<open>visited_order\<close>); with \<open>hash 1 = 10\<close> and
  \<open>hash 2 = 5\<close> user 1 is visited before user 2, although the frame sorted by hash has the
  row of user 2 first.
\<close>

theorem visit_order_by_key:
  "visited (\<lambda>i. 0) (\<lambda>u. if u = 1 then 10 else 5) [(2::nat, ''B''), (1, ''A'')]
       = [(1, [''A'']), (2, [''B''])]
   \<and> sort_values (\<lambda>i. 0) (map (\<lambda>(u, item). (u, item, if u = 1 then 10 else 5)) [(2::nat, ''B''), (1, ''A'')])
       = [(2, ''B'', 5), (1, ''A'', 10)]"
  by (simp add: frame_defs)

lemma policy_histogram_fails_iff:
  "policy_histogram df eps delta max_contrib tie hash randint = Inl e
     \<longleftrightarrow> thresholds eps delta max_contrib = Inl e"
proof (cases "thresholds eps delta max_contrib")
  case (Inl e')
  then show ?thesis by (simp add: policy_histogram_def)
next
  case (Inr t)
  obtain lambd rho gamma where t: "t = (lambd, rho, gamma)" by (cases t)
  from allocate_all_spec [of gamma max_contrib randint "visited tie hash df" "[]" "[]"]
  obtain h new where
    "allocate_all gamma max_contrib randint (visited tie hash df) ([], []) = Inr (h, [] @ new)"
    by (elim exE conjE)
  with Inr t show ?thesis by (simp add: policy_histogram_def)
qed

text \<open>
  C8 (corrected). The code validates no parameter. With \<open>eps = -6\<close>, \<open>delta = 1/2\<close> and
  \<open>max_contrib = 1\<close> the thresholds are computed (gamma is 1/2) and the allocation loop
  builds the histogram: the item of the only user receives the weight 1/2.
\<close>

theorem fail_fast_counterexample:
  "(-6::real) \<le> 0
   \<and> thresholds (-6) (1/2) 1 = Inr (-1/6, 1, 1/2)
   \<and> policy_histogram [(1::nat, ''A'')] (-6) (1/2) 1 (\<lambda>i. 0) (\<lambda>u. 0) (\<lambda>u i. 0)
       = Inr ([(''A'', 1/2)], [[(''A'', 1/2)]])"
  by (simp add: frame_defs thresholds_negative_eps eval_defs)

text \<open>
  C8 as amended. An exception is raised before the histogram is created exactly when the
  derivation of the thresholds raises, and \<^verbatim>\<open>policy_laplace\<close> then fails with that
  exception. The derivation raises, in this order of precedence:
  a ZeroDivisionError when \<open>eps = 0\<close>;
  otherwise a ValueError when \<open>max_contrib < 1\<close>;
  otherwise a ZeroDivisionError when \<open>delta = 0\<close> and a ValueError when \<open>delta < 0\<close>;
  otherwise a TypeError when \<open>delta > 1\<close> and \<open>max_contrib \<ge> 2\<close>.
  For every other triple, among them \<open>eps < 0\<close>, \<open>delta = 1\<close>, and \<open>delta > 1\<close> with
  \<open>max_contrib = 1\<close>, the thresholds are computed and the allocation loop builds the
  histogram without raising.
\<close>

theorem parameter_failure:
  "(thresholds eps delta max_contrib = Inl e \<longleftrightarrow>
        e = ZeroDivisionError \<and> (eps = 0 \<or> 1 \<le> max_contrib \<and> delta = 0)
      \<or> e = ValueError \<and> eps \<noteq> 0 \<and> (max_contrib < 1 \<or> delta < 0)
      \<or> e = TypeError \<and> eps \<noteq> 0 \<and> 2 \<le> max_contrib \<and> 1 < delta)
   \<and> ((\<exists>e. thresholds eps delta max_contrib = Inl e)
      \<longleftrightarrow> eps = 0 \<or> max_contrib < 1 \<or> delta \<le> 0 \<or> (1 < delta \<and> 2 \<le> max_contrib))
   \<and> (policy_histogram df eps delta max_contrib tie hash randint = Inl e
      \<longleftrightarrow> thresholds eps delta max_contrib = Inl e)
   \<and> (thresholds eps delta max_contrib = Inl e
      \<longrightarrow> policy_laplace df eps delta max_contrib tie hash randint laplace = Inl e)
   \<and> ((\<forall>e. thresholds eps delta max_contrib \<noteq> Inl e)
      \<longrightarrow> (\<exists>h trail. policy_histogram df eps delta max_contrib tie hash randint = Inr (h, trail)))"
proof (intro conjI)
  show "thresholds eps delta max_contrib = Inl e \<longleftrightarrow>
        e = ZeroDivisionError \<and> (eps = 0 \<or> 1 \<le> max_contrib \<and> delta = 0)
      \<or> e = ValueError \<and> eps \<noteq> 0 \<and> (max_contrib < 1 \<or> delta < 0)
      \<or> e = TypeError \<and> eps \<noteq> 0 \<and> 2 \<le> max_contrib \<and> 1 < delta"
    by (rule thresholds_error_kind)
  show "(\<exists>e. thresholds eps delta max_contrib = Inl e)
      \<longleftrightarrow> eps = 0 \<or> max_contrib < 1 \<or> delta \<le> 0 \<or> (1 < delta \<and> 2 \<le> max_contrib)"
    by (rule thresholds_fails_iff)
  show "policy_histogram df eps delta max_contrib tie hash randint = Inl e
      \<longleftrightarrow> thresholds eps delta max_contrib = Inl e"
    by (rule policy_histogram_fails_iff)
  show "thresholds eps delta max_contrib = Inl e
      \<longrightarrow> policy_laplace df eps delta max_contrib tie hash randint laplace = Inl e"
    by (simp add: policy_laplace_fails_iff)
  show "(\<forall>e. thresholds eps delta max_contrib \<noteq> Inl e)
      \<longrightarrow> (\<exists>h trail. policy_histogram df eps delta max_contrib tie hash randint = Inr (h, trail))"
  proof
    assume ok: "\<forall>e. thresholds eps delta max_contrib \<noteq> Inl e"
    then have "\<forall>e. policy_histogram df eps delta max_contrib tie hash randint \<noteq> Inl e"
      by (simp add: policy_histogram_fails_iff)
    then show "\<exists>h trail. policy_histogram df eps delta max_contrib tie hash randint = Inr (h, trail)"
      by (cases "policy_histogram df eps delta max_contrib tie hash randint") auto
  qed
qed

text \<open>
  One triple for every kind of exception, among them \<open>eps = 1\<close>, \<open>delta = 0\<close>,
  \<open>max_contrib = 0\<close>, where the empty list is met before the division by zero.
\<close>

theorem parameter_failure_witness:
  "thresholds 0 (1/2) 1 = Inl ZeroDivisionError
   \<and> policy_histogram [(1::nat, ''A'')] 0 (1/2) 1 (\<lambda>i. 0) (\<lambda>u. 0) (\<lambda>u i. 0) = Inl ZeroDivisionError
   \<and> policy_laplace [(1::nat, ''A'')] 0 (1/2) 1 (\<lambda>i. 0) (\<lambda>u. 0) (\<lambda>u i. 0) (\<lambda>n. 1) = Inl ZeroDivisionError
   \<and> thresholds 0 0 0 = Inl ZeroDivisionError
   \<and> thresholds 1 0 0 = Inl ValueError
   \<and> thresholds 1 (1/2) 0 = Inl ValueError
   \<and> thresholds 1 0 1 = Inl ZeroDivisionError
   \<and> thresholds 1 (- 1) 1 = Inl ValueError
   \<and> thresholds 1 2 2 = Inl TypeError
   \<and> thresholds 1 2 1 = Inr (1, 1 + ln (1/4), 1 + ln (1/4) + 3)"
proof -
  note pf = parameter_failure [where df = "[(1::nat, ''A'')]" and tie = "\<lambda>i. 0" and hash = "\<lambda>u. 0"
      and randint = "\<lambda>u i. 0" and laplace = "\<lambda>n. 1"]
  have a: "thresholds 0 (1/2) 1 = Inl ZeroDivisionError"
    using pf [of 0 "1/2" 1 ZeroDivisionError] by simp
  have b: "policy_histogram [(1::nat, ''A'')] 0 (1/2) 1 (\<lambda>i. 0) (\<lambda>u. 0) (\<lambda>u i. 0) = Inl ZeroDivisionError"
    "policy_laplace [(1::nat, ''A'')] 0 (1/2) 1 (\<lambda>i. 0) (\<lambda>u. 0) (\<lambda>u i. 0) (\<lambda>n. 1) = Inl ZeroDivisionError"
    using a pf [of 0 "1/2" 1 ZeroDivisionError] by simp_all
  have c: "thresholds 0 0 0 = Inl ZeroDivisionError"
    using pf [of 0 0 0 ZeroDivisionError] by simp
  have d: "thresholds 1 0 0 = Inl ValueError"
    using pf [of 1 0 0 ValueError] by simp
  have e: "thresholds 1 (1/2) 0 = Inl ValueError"
    using pf [of 1 "1/2" 0 ValueError] by simp
  have f: "thresholds 1 0 1 = Inl ZeroDivisionError"
    using pf [of 1 0 1 ZeroDivisionError] by simp
  have g: "thresholds 1 (- 1) 1 = Inl ValueError"
    using pf [of 1 "- 1" 1 ValueError] by simp
  have h: "thresholds 1 2 2 = Inl TypeError"
    using pf [of 1 2 2 TypeError] by simp
  have i: "thresholds 1 2 1 = Inr (1, 1 + ln (1/4), 1 + ln (1/4) + 3)"
    by (simp add: thresholds_def rho_term_one py_max_def Let_def upt_conv_Cons)
  from a b c d e f g h i show ?thesis by simp
qed

text \<open>
  C9 (the code differs). \<^verbatim>\<open>policy_laplace\<close> keeps the rows whose item is released, but
  \<^verbatim>\<open>run_dpsu\<close> then joins the input with them on the user key alone, so every input
  row of a user with at least one released item is returned. User 0 contributes A; user 1
  contributes A and B. With every noise draw equal to \<open>- 1/4\<close> the item A (noisy weight
  5/4) is released and B (noisy weight 1/4, threshold 1/2) is not; the output contains
  the row of user 1 with item B. The last two conjuncts are the same run with the two
  rows of user 1 left in the other order by the sort.
\<close>

theorem output_row_not_released:
  "policy_laplace [(0::nat, ''A''), (1, ''A''), (1, ''B'')] (1/2) (3/4) 2 (\<lambda>i. 0) (\<lambda>u. int u) (\<lambda>u i. 0)
       (\<lambda>n. - 1/4)
     = Inr [(0, ''A'', 0), (1, ''A'', 1)]
   \<and> run_dpsu fst snd [(0::nat, ''A''), (1, ''A''), (1, ''B'')] (1/2) (3/4) 2 (\<lambda>i. 0) (\<lambda>u. int u)
       (\<lambda>u i. 0) (\<lambda>n. - 1/4)
     = Inr [(0, ''A''), (1, ''A''), (1, ''B'')]
   \<and> sort_values (\<lambda>i. 3 - i) [(0::nat, ''A'', 0), (1, ''A'', 1), (1, ''B'', 1)]
     = [(0, ''A'', 0), (1, ''B'', 1), (1, ''A'', 1)]
   \<and> run_dpsu fst snd [(0::nat, ''A''), (1, ''A''), (1, ''B'')] (1/2) (3/4) 2 (\<lambda>i. 3 - i) (\<lambda>u. int u)
       (\<lambda>u i. 0) (\<lambda>n. - 1/4)
     = Inr [(0, ''A''), (1, ''A''), (1, ''B'')]"
  by (simp add: frame_defs thresholds_example eval_defs)

text \<open>
  C2 (the code differs). With \<open>eps = 1/2\<close>, \<open>delta = 3/4\<close> and \<open>max_contrib = 2\<close>
  the saturation target is 13/2. Six users contribute A alone and raise it to 6; user 7
  contributes A and B. In iteration 0 of user 7 the cost \<open>1/2 * 2\<close> is within the budget,
  so B, a remaining item, is to receive 1/2. The inner loop sets \<^verbatim>\<open>cost_dict[curr_item]\<close>
  to 0 in its first round and adds 0 to B.

  With \<open>eps = 15\<close>, \<open>delta = 1/2\<close> and \<open>max_contrib = 2\<close> the target is 6/5. User 1
  raises A to 1; user 2 contributes A and B. Iteration 0 saturates A and again adds 0 to
  B; iteration 1 takes the else branch with budget 3/5 and \<open>k = 1\<close>, where
  \<^verbatim>\<open>range(idx, k)\<close> is \<^verbatim>\<open>range(1, 1)\<close>: the remaining budget is not distributed and B
  keeps the weight 0, where the claim gives it \<open>1/5 + 3/5\<close>.

  The last two conjuncts are the two runs with the rows of the last user left in the
  other order by the sort: the histograms are the same.
\<close>

theorem remaining_items_not_raised:
  "policy_histogram
      [(1::nat, ''A''), (2, ''A''), (3, ''A''), (4, ''A''), (5, ''A''), (6, ''A''), (7, ''A''), (7, ''B'')]
      (1/2) (3/4) 2 (\<lambda>i. 0) (\<lambda>u. int u) (\<lambda>u i. 0)
     = Inr ([(''A'', 13/2), (''B'', 0)],
            [[(''A'', 1)], [(''A'', 1)], [(''A'', 1)], [(''A'', 1)], [(''A'', 1)], [(''A'', 1)],
             [(''A'', 1/2), (''B'', 0)]])
   \<and> policy_histogram [(1::nat, ''A''), (2, ''A''), (2, ''B'')] 15 (1/2) 2 (\<lambda>i. 0) (\<lambda>u. int u) (\<lambda>u i. 0)
     = Inr ([(''A'', 6/5), (''B'', 0)], [[(''A'', 1)], [(''A'', 1/5), (''B'', 0)]])
   \<and> allocate (6/5) [''A'', ''B''] [(''A'', 1)]
     = Inr \<lparr>histogram = [(''A'', 6/5), (''B'', 0)], cost_dict = [(''A'', 0), (''B'', 6/5)],
          budget = 3/5, k = 1, updates = [(''A'', 1/5), (''B'', 0)]\<rparr>
   \<and> policy_histogram
      [(1::nat, ''A''), (2, ''A''), (3, ''A''), (4, ''A''), (5, ''A''), (6, ''A''), (7, ''A''), (7, ''B'')]
      (1/2) (3/4) 2 (\<lambda>i. 8 - i) (\<lambda>u. int u) (\<lambda>u i. 0)
     = Inr ([(''A'', 13/2), (''B'', 0)],
            [[(''A'', 1)], [(''A'', 1)], [(''A'', 1)], [(''A'', 1)], [(''A'', 1)], [(''A'', 1)],
             [(''A'', 1/2), (''B'', 0)]])
   \<and> policy_histogram [(1::nat, ''A''), (2, ''A''), (2, ''B'')] 15 (1/2) 2 (\<lambda>i. 3 - i) (\<lambda>u. int u) (\<lambda>u i. 0)
     = Inr ([(''A'', 6/5), (''B'', 0)], [[(''A'', 1)], [(''A'', 1/5), (''B'', 0)]])"
  by (simp add: frame_defs thresholds_example thresholds_example2 eval_defs)

end
